theory Spec2Isabelle
  imports Main "HOL-Library.Multiset"
begin

section \<open>Data model\<close>

text \<open>
  Object ids are handled by the code only through \<open>toString()\<close> and string equality,
  so an id is a string. A category document (\<open>ICategory\<close>, models/Category.ts) has an
  \<open>_id\<close>, a \<open>name\<close>, an optional \<open>parent\<close> id and a \<open>status\<close>. The status is a string
  at run time; the schema's enum is checked when a document is saved.
\<close>

type_synonym oid = string

record category =
  cat_id :: oid
  cat_name :: string
  cat_parent :: "oid option"
  cat_status :: string

text \<open>The collection: documents in natural (insertion) order.\<close>

type_synonym store = "category list"

definition ids :: "category list \<Rightarrow> oid list" where
  "ids cs = map cat_id cs"

text \<open>
  The parent graph of a flat category set, as edges from a parent id to a child id:
  one edge for every record whose \<open>parent\<close> is set.
\<close>

definition child_edges :: "category list \<Rightarrow> (oid \<times> oid) list" where
  "child_edges cs =
     concat (map (\<lambda>c. case cat_parent c of None \<Rightarrow> [] | Some p \<Rightarrow> [(p, cat_id c)]) cs)"

definition child_rel :: "category list \<Rightarrow> (oid \<times> oid) set" where
  "child_rel cs = set (child_edges cs)"

section \<open>The store operations the handlers use\<close>

text \<open>\<open>Category.findById(id)\<close>: the document with that \<open>_id\<close>, or null.\<close>

definition findById :: "oid \<Rightarrow> store \<Rightarrow> category option" where
  "findById i s = find (\<lambda>c. cat_id c = i) s"

text \<open>\<open>Category.find({ parent: id })\<close>: the documents whose parent is the id.\<close>

definition findByParent :: "oid \<Rightarrow> store \<Rightarrow> category list" where
  "findByParent p s = filter (\<lambda>c. cat_parent c = Some p) s"

text \<open>
  One \<open>updateOne\<close> of a bulk write: the filter is \<open>{ _id: i }\<close>, so the first document
  with that id is changed by \<open>f\<close> and no other.
\<close>

fun updateOne :: "oid \<Rightarrow> (category \<Rightarrow> category) \<Rightarrow> store \<Rightarrow> store" where
  "updateOne i f [] = []"
| "updateOne i f (c # s) = (if cat_id c = i then f c # s else c # updateOne i f s)"

text \<open>\<open>Category.bulkWrite(ops)\<close>: the operations are applied in order.\<close>

fun bulkWrite :: "(oid \<times> (category \<Rightarrow> category)) list \<Rightarrow> store \<Rightarrow> store" where
  "bulkWrite [] s = s"
| "bulkWrite ((i, f) # ops) s = bulkWrite ops (updateOne i f s)"

text \<open>\<open>Category.findByIdAndDelete(id)\<close>: removes the first document with that id.\<close>

fun findByIdAndDelete :: "oid \<Rightarrow> store \<Rightarrow> store" where
  "findByIdAndDelete i [] = []"
| "findByIdAndDelete i (c # s) = (if cat_id c = i then s else c # findByIdAndDelete i s)"

text \<open>
  The schema of models/Category.ts, checked by \<open>save()\<close>: \<open>name\<close> is required and trimmed
  (an empty name fails), \<open>status\<close> is one of the enum's two values. The setter \<open>trim\<close> is
  \<open>String.prototype.trim\<close>. A character of the model is a code unit below 256; of
  these, \<open>trim\<close> strips the space, the tab, the line feed, the vertical tab, the form
  feed, the carriage return and the no-break space U+00A0.
\<close>

definition is_space :: "char \<Rightarrow> bool" where
  "is_space ch =
     (ch \<in> set [CHR '' '', CHR 0x09, CHR 0x0A, CHR 0x0B, CHR 0x0C, CHR 0x0D, CHR 0xA0])"

definition trim :: "string \<Rightarrow> string" where
  "trim s = rev (dropWhile is_space (rev (dropWhile is_space s)))"

definition validate :: "category \<Rightarrow> bool" where
  "validate c = (cat_name c \<noteq> [] \<and> (cat_status c = ''active'' \<or> cat_status c = ''inactive''))"

section \<open>Requests and responses\<close>

text \<open>
  A field of \<open>req.body\<close> is absent or a string. JavaScript's truthiness of such a value:
  absent and the empty string are falsy.
\<close>

definition truthy :: "string option \<Rightarrow> bool" where
  "truthy v = (case v of None \<Rightarrow> False | Some s \<Rightarrow> s \<noteq> [])"

record body =
  body_name :: "string option"
  body_parent :: "string option"
  body_status :: "string option"

record response =
  code :: nat
  message :: string

text \<open>
  \<open>res.status(n).json(...)\<close>. The first call of a request sends the response; a later
  call finds the headers sent and throws, so what the client receives is the first one.
\<close>

definition send :: "nat \<Rightarrow> string \<Rightarrow> response option \<Rightarrow> response option" where
  "send n m sent = (case sent of None \<Rightarrow> Some \<lparr>code = n, message = m\<rparr> | Some r \<Rightarrow> Some r)"

section \<open>createCategory\<close>

text \<open>
  controllers/categoryController.ts, \<open>createCategory\<close>. \<open>isValid\<close> is the object-id check
  of the database driver (\<open>findById\<close> throws a cast error on an id that fails it) and
  \<open>newId\<close> is the id that \<open>new Category\<close> generates. Every exception lands in the
  handler's \<open>catch\<close>, which answers 500. The branch that answers 400 has no \<open>return\<close>.
  Inserting a document whose id is already in the collection fails (duplicate key).
\<close>

definition createCategory ::
  "(oid \<Rightarrow> bool) \<Rightarrow> oid \<Rightarrow> body \<Rightarrow> store \<Rightarrow> response option \<times> store" where
  "createCategory isValid newId b s =
     (let name = body_name b; parent = body_parent b; status = body_status b in
      if truthy parent \<and> \<not> isValid (the parent)
      then (send 500 ''Failed to create category'' None, s)
      else
        let sent = (if truthy parent \<and> findById (the parent) s = None
                    then send 400 ''Parent category not found'' None else None);
            category = \<lparr>cat_id = newId,
                        cat_name = (case name of None \<Rightarrow> [] | Some n \<Rightarrow> trim n),
                        cat_parent = (if truthy parent then parent else None),
                        cat_status = (if truthy status then the status else ''active'')\<rparr>
        in if \<not> validate category \<or> newId \<in> set (ids s)
           then (send 500 ''Failed to create category'' sent, s)
           else (send 500 ''Failed to create category''
                   (send 201 ''Category created successfully'' sent), s @ [category]))"

section \<open>The status cascade and updateCategory\<close>

text \<open>
  controllers/categoryController.ts, \<open>updateDescendantStatus\<close>. The routine reads the
  children of \<open>parentId\<close> from the store, writes the status on them in one bulk write
  and then calls itself on every child in turn, each call working on the store the
  previous one left. Nothing bounds the recursion, so the model takes the depth it may
  reach as fuel: \<open>None\<close> is the call that does not come back within that depth.
\<close>

primrec updateDescendantStatus :: "nat \<Rightarrow> oid \<Rightarrow> string \<Rightarrow> store \<Rightarrow> store option" where
  "updateDescendantStatus 0 parentId status s = None"
| "updateDescendantStatus (Suc n) parentId status s =
     (let children = findByParent parentId s in
      if length children > 0
      then
        let bulkOps = map (\<lambda>child. (cat_id child, \<lambda>c. c\<lparr>cat_status := status\<rparr>)) children;
            s1 = bulkWrite bulkOps s
        in fold (\<lambda>child acc. case acc of None \<Rightarrow> None
                   | Some s2 \<Rightarrow> updateDescendantStatus n (cat_id child) status s2)
             children (Some s1)
      else Some s)"

text \<open>
  \<open>updateCategory\<close>. The document is read, changed in memory, and written back by
  \<open>category.save()\<close> after the cascade; \<open>save\<close> validates it against the schema and
  writes its name and status on the stored document of the same id.
\<close>

definition updateCategory ::
  "(oid \<Rightarrow> bool) \<Rightarrow> nat \<Rightarrow> oid \<Rightarrow> body \<Rightarrow> store \<Rightarrow> (response option \<times> store) option" where
  "updateCategory isValid fuel i b s =
     (let name = body_name b; status = body_status b in
      if \<not> isValid i then Some (send 400 ''Invalid category ID'' None, s)
      else case findById i s of
        None \<Rightarrow> Some (send 404 ''Category not found'' None, s)
      | Some category \<Rightarrow>
          let category1 = category\<lparr>cat_name := (if truthy name then trim (the name)
                                                 else cat_name category)\<rparr>;
              cascade = (truthy status \<and> the status \<noteq> cat_status category
                           \<and> the status = ''inactive'');
              category2 = (if cascade then category1\<lparr>cat_status := the status\<rparr>
                           else if truthy status then category1\<lparr>cat_status := the status\<rparr>
                           else category1)
          in (case (if cascade then updateDescendantStatus fuel i ''inactive'' s else Some s) of
                None \<Rightarrow> None
              | Some s1 \<Rightarrow>
                  if \<not> validate category2
                  then Some (send 500 ''Failed to update category'' None, s1)
                  else Some (send 200 ''Category updated successfully'' None,
                             updateOne i (\<lambda>c. c\<lparr>cat_name := cat_name category2,
                                                  cat_status := cat_status category2\<rparr>) s1)))"

section \<open>deleteCategory\<close>

text \<open>
  \<open>deleteCategory\<close>. The check of the id answers 400 and goes on (it has no \<open>return\<close>);
  \<open>findById\<close> then throws on the malformed id and the \<open>catch\<close> finds the response
  sent. On a stored category the handler reads its parent, moves the direct children
  to that parent in one bulk write, and deletes the category.
\<close>

definition deleteCategory ::
  "(oid \<Rightarrow> bool) \<Rightarrow> oid \<Rightarrow> store \<Rightarrow> response option \<times> store" where
  "deleteCategory isValid i s =
     (let sent = (if \<not> isValid i then send 400 ''Invalid category ID'' None else None) in
      if \<not> isValid i then (send 500 ''Failed to delete category'' sent, s)
      else case findById i s of
        None \<Rightarrow> (send 404 ''Category not found'' sent, s)
      | Some category \<Rightarrow>
          let parentId = cat_parent category;
              subcategories = findByParent i s;
              s1 = (if length subcategories > 0
                    then bulkWrite
                           (map (\<lambda>subcat. (cat_id subcat, \<lambda>c. c\<lparr>cat_parent := parentId\<rparr>))
                              subcategories) s
                    else s);
              s2 = findByIdAndDelete i s1
          in (send 200 ''Category deleted successfully and subcategories reassigned'' sent,
              s2))"

section \<open>The descendant-id listing\<close>

text \<open>
  utils, \<open>getAllDescendantIds\<close>: the direct children are filtered from the flat list;
  for each of them its id is pushed, then the ids the recursive call returns. The
  recursion is bounded by nothing but the data, so the model takes fuel as above.
\<close>

primrec getAllDescendantIds :: "nat \<Rightarrow> oid \<Rightarrow> category list \<Rightarrow> oid list option" where
  "getAllDescendantIds 0 categoryId categories = None"
| "getAllDescendantIds (Suc n) categoryId categories =
     (let children = filter (\<lambda>cat. cat_parent cat \<noteq> None \<and> the (cat_parent cat) = categoryId)
                       categories
      in fold (\<lambda>child acc. case acc of None \<Rightarrow> None
                 | Some descendants \<Rightarrow>
                     (case getAllDescendantIds n (cat_id child) categories of
                        None \<Rightarrow> None
                      | Some childDescendants \<Rightarrow>
                          Some (descendants @ [cat_id child] @ childDescendants)))
           children (Some []))"

section \<open>The tree builder\<close>

text \<open>
  The builder allocates one node object per record and keeps it in \<open>categoryMap\<close> under
  the record's id; a later record of the same id replaces the object. The second pass
  pushes references to these objects on the \<open>children\<close> array of another object or on
  the root array. The objects are shared and mutated, so the model keeps them in a heap:
  the map from the key to the object, a reference being the key. A node's \<open>children\<close>
  and the root array are lists of references.
\<close>

record node =
  node_id :: oid
  node_name :: string
  node_status :: string
  children :: "oid list"

type_synonym heap = "oid \<rightharpoonup> node"

definition fillMap :: "category list \<Rightarrow> heap" where
  "fillMap categories =
     fold (\<lambda>category m. m(cat_id category \<mapsto>
             \<lparr>node_id = cat_id category, node_name = cat_name category,
              node_status = cat_status category, children = []\<rparr>))
       categories Map.empty"

text \<open>The second pass of the builder in utils: a record whose parent is not in the map
  is pushed on the root array.\<close>

definition link :: "category \<Rightarrow> heap \<times> oid list \<Rightarrow> heap \<times> oid list" where
  "link category st =
     (case st of (m, rootCategories) \<Rightarrow>
        (case m (cat_id category) of
           None \<Rightarrow> (m, rootCategories)
         | Some mappedCat \<Rightarrow>
             (case cat_parent category of
                Some parentId \<Rightarrow>
                  (case m parentId of
                     Some parent \<Rightarrow>
                       (m(parentId \<mapsto> parent\<lparr>children := children parent @ [cat_id category]\<rparr>),
                        rootCategories)
                   | None \<Rightarrow> (m, rootCategories @ [cat_id category]))
              | None \<Rightarrow> (m, rootCategories @ [cat_id category]))))"

definition buildCategoryTree :: "category list \<Rightarrow> heap \<times> oid list" where
  "buildCategoryTree categories = fold link categories (fillMap categories, [])"

text \<open>The second pass of the builder in the controller: the branch for a parent that is
  not in the map is missing, and such a record is pushed nowhere. The node of the record
  itself is in the map (the first pass put it there), so the reference pushed is its key.\<close>

definition link_ctl :: "category \<Rightarrow> heap \<times> oid list \<Rightarrow> heap \<times> oid list" where
  "link_ctl category st =
     (case st of (m, rootCategories) \<Rightarrow>
        (case cat_parent category of
           Some parentId \<Rightarrow>
             (case m parentId of
                Some parent \<Rightarrow>
                  (m(parentId \<mapsto> parent\<lparr>children := children parent @ [cat_id category]\<rparr>),
                   rootCategories)
              | None \<Rightarrow> (m, rootCategories))
         | None \<Rightarrow> (m, rootCategories @ [cat_id category])))"

definition buildCategoryTree_ctl :: "category list \<Rightarrow> heap \<times> oid list" where
  "buildCategoryTree_ctl categories = fold link_ctl categories (fillMap categories, [])"

text \<open>
  What a reader of the result sees (the JSON the endpoint sends): the nodes reached from
  the root array through \<open>children\<close>. A cyclic heap has no finite reading; the fuel bounds
  the nesting and \<open>None\<close> is the reading that does not end within it.
\<close>

datatype tree = Tree oid string string "tree list"

primrec unfold_node :: "nat \<Rightarrow> heap \<Rightarrow> oid \<Rightarrow> tree option" where
  "unfold_node 0 h r = None"
| "unfold_node (Suc n) h r =
     (case h r of
        None \<Rightarrow> None
      | Some nd \<Rightarrow>
          map_option (Tree (node_id nd) (node_name nd) (node_status nd))
            (those (map (unfold_node n h) (children nd))))"

definition forest :: "nat \<Rightarrow> heap \<times> oid list \<Rightarrow> tree list option" where
  "forest n res = (case res of (h, roots) \<Rightarrow> those (map (unfold_node n h) roots))"

fun tree_nodes :: "tree \<Rightarrow> (oid \<times> string \<times> string) list" where
  "tree_nodes (Tree i nm st ts) = (i, nm, st) # concat (map tree_nodes ts)"

definition forest_nodes :: "tree list \<Rightarrow> (oid \<times> string \<times> string) list" where
  "forest_nodes ts = concat (map tree_nodes ts)"

definition tree_root :: "tree \<Rightarrow> oid" where
  "tree_root t = (case t of Tree i nm st ts \<Rightarrow> i)"

section \<open>The parent graph: chains, depth, descendants\<close>

text \<open>
  A chain below \<open>p\<close> is a path of the parent graph that starts at a child of \<open>p\<close> and
  goes from each id to one of its children. The depth of the subtree below \<open>p\<close> is the
  length of its longest chain.
\<close>

fun chain :: "category list \<Rightarrow> oid \<Rightarrow> oid list \<Rightarrow> bool" where
  "chain cs p [] = True"
| "chain cs p (x # xs) = ((p, x) \<in> child_rel cs \<and> chain cs x xs)"

text \<open>\<open>within n cs p\<close>: every chain below \<open>p\<close> is shorter than \<open>n\<close>, computed level by level.\<close>

primrec within :: "nat \<Rightarrow> category list \<Rightarrow> oid \<Rightarrow> bool" where
  "within 0 cs p = False"
| "within (Suc n) cs p = list_all (\<lambda>c. within n cs (cat_id c)) (findByParent p cs)"

text \<open>The ids below \<open>p\<close> in depth-first preorder, down to \<open>n\<close> levels.\<close>

primrec preorder :: "nat \<Rightarrow> category list \<Rightarrow> oid \<Rightarrow> oid list" where
  "preorder 0 cs p = []"
| "preorder (Suc n) cs p =
     concat (map (\<lambda>c. cat_id c # preorder n cs (cat_id c)) (findByParent p cs))"

text \<open>The transitive descendants of \<open>p\<close> in the parent graph.\<close>

definition descendants :: "category list \<Rightarrow> oid \<Rightarrow> oid set" where
  "descendants cs p = {d. (p, d) \<in> (child_rel cs)\<^sup>+}"

text \<open>Writing a status on the documents whose id is in a set.\<close>

definition mark :: "oid set \<Rightarrow> string \<Rightarrow> store \<Rightarrow> store" where
  "mark D st s = map (\<lambda>c. if cat_id c \<in> D then c\<lparr>cat_status := st\<rparr> else c) s"

text \<open>What the parent graph is made of: the id and the parent of every document.\<close>

definition skeleton :: "category list \<Rightarrow> (oid \<times> oid option) list" where
  "skeleton cs = map (\<lambda>c. (cat_id c, cat_parent c)) cs"

section \<open>The forest a flat set describes\<close>

text \<open>
  The heap and the root array written out: the node of an id carries the fields of the
  record with that id and refers to the records that name the id as parent, in input
  order; the roots are the records with no parent or with a parent that is no id of
  the input.
\<close>

definition node_of :: "category \<Rightarrow> oid list \<Rightarrow> node" where
  "node_of c ks =
     \<lparr>node_id = cat_id c, node_name = cat_name c, node_status = cat_status c, children = ks\<rparr>"

definition heap_of :: "category list \<Rightarrow> heap" where
  "heap_of cs k = map_option (\<lambda>c. node_of c (map cat_id (findByParent k cs))) (findById k cs)"

definition is_root :: "category list \<Rightarrow> category \<Rightarrow> bool" where
  "is_root cs c = (case cat_parent c of None \<Rightarrow> True | Some p \<Rightarrow> p \<notin> set (ids cs))"

definition roots_of :: "category list \<Rightarrow> oid list" where
  "roots_of cs = map cat_id (filter (is_root cs) cs)"

text \<open>What a node shows of a record: its id, name and status.\<close>

definition shown :: "category \<Rightarrow> oid \<times> string \<times> string" where
  "shown c = (cat_id c, cat_name c, cat_status c)"

text \<open>The record shown under an id (nothing but the id when no record has it).\<close>

definition shown_id :: "category list \<Rightarrow> oid \<Rightarrow> oid \<times> string \<times> string" where
  "shown_id cs k = (case findById k cs of None \<Rightarrow> (k, [], []) | Some c \<Rightarrow> shown c)"

text \<open>The tree below a record, \<open>n\<close> levels deep.\<close>

primrec subtree :: "nat \<Rightarrow> category list \<Rightarrow> category \<Rightarrow> tree" where
  "subtree 0 cs c = Tree (cat_id c) (cat_name c) (cat_status c) []"
| "subtree (Suc n) cs c =
     Tree (cat_id c) (cat_name c) (cat_status c)
       (map (subtree n cs) (findByParent (cat_id c) cs))"

section \<open>Example data\<close>

text \<open>
  A small catalogue: Electronics with the child Computers, which has the children Laptops
  and Desktops, and the unrelated root Books.
\<close>

definition shop :: store where
  "shop =
     [\<lparr>cat_id = ''e1'', cat_name = ''Electronics'', cat_parent = None, cat_status = ''active''\<rparr>,
      \<lparr>cat_id = ''c1'', cat_name = ''Computers'', cat_parent = Some ''e1'',
        cat_status = ''active''\<rparr>,
      \<lparr>cat_id = ''l1'', cat_name = ''Laptops'', cat_parent = Some ''c1'',
        cat_status = ''active''\<rparr>,
      \<lparr>cat_id = ''d1'', cat_name = ''Desktops'', cat_parent = Some ''c1'',
        cat_status = ''active''\<rparr>,
      \<lparr>cat_id = ''b1'', cat_name = ''Books'', cat_parent = None, cat_status = ''active''\<rparr>]"

text \<open>The catalogue after the cascade of "inactive" below Computers.\<close>

definition shop_computers_off :: store where
  "shop_computers_off =
     [\<lparr>cat_id = ''e1'', cat_name = ''Electronics'', cat_parent = None, cat_status = ''active''\<rparr>,
      \<lparr>cat_id = ''c1'', cat_name = ''Computers'', cat_parent = Some ''e1'',
        cat_status = ''active''\<rparr>,
      \<lparr>cat_id = ''l1'', cat_name = ''Laptops'', cat_parent = Some ''c1'',
        cat_status = ''inactive''\<rparr>,
      \<lparr>cat_id = ''d1'', cat_name = ''Desktops'', cat_parent = Some ''c1'',
        cat_status = ''inactive''\<rparr>,
      \<lparr>cat_id = ''b1'', cat_name = ''Books'', cat_parent = None, cat_status = ''active''\<rparr>]"

text \<open>Two records that name each other as parent; and a root next to a record whose
  parent is stored nowhere.\<close>

definition loop2 :: "category list" where
  "loop2 =
     [\<lparr>cat_id = ''x'', cat_name = ''X'', cat_parent = Some ''y'', cat_status = ''active''\<rparr>,
      \<lparr>cat_id = ''y'', cat_name = ''Y'', cat_parent = Some ''x'', cat_status = ''active''\<rparr>]"

definition orphan :: "category list" where
  "orphan =
     [\<lparr>cat_id = ''e1'', cat_name = ''Electronics'', cat_parent = None, cat_status = ''active''\<rparr>,
      \<lparr>cat_id = ''o1'', cat_name = ''Accessories'', cat_parent = Some ''zz'',
        cat_status = ''active''\<rparr>]"

section \<open>Facts about the store operations\<close>

lemma findById_SomeD: "findById i s = Some c \<Longrightarrow> c \<in> set s \<and> cat_id c = i"
  unfolding findById_def by (induction s) (auto split: if_splits)

lemma findById_None_iff: "findById i s = None \<longleftrightarrow> i \<notin> set (ids s)"
  unfolding findById_def ids_def by (induction s) auto

lemma findById_distinct:
  "distinct (ids s) \<Longrightarrow> c \<in> set s \<Longrightarrow> findById (cat_id c) s = Some c"
  unfolding findById_def ids_def by (induction s) auto

lemma findById_updateOne_other:
  "j \<noteq> i \<Longrightarrow> (\<And>c. cat_id (f c) = cat_id c) \<Longrightarrow> findById j (updateOne i f s) = findById j s"
  unfolding findById_def by (induction s) auto

lemma ids_updateOne: "(\<And>c. cat_id (f c) = cat_id c) \<Longrightarrow> ids (updateOne i f s) = ids s"
  unfolding ids_def by (induction s) auto

lemma map_if_id_absent:
  "i \<notin> cat_id ` set s \<Longrightarrow> map (\<lambda>c. if cat_id c = i then f c else c) s = s"
  by (induction s) auto

lemma updateOne_distinct:
  "distinct (ids s) \<Longrightarrow> updateOne i f s = map (\<lambda>c. if cat_id c = i then f c else c) s"
proof (induction s)
  case Nil
  then show ?case by simp
next
  case (Cons a s)
  show ?case
  proof (cases "cat_id a = i")
    case True
    then have "i \<notin> cat_id ` set s" using Cons.prems by (auto simp: ids_def)
    then have "map (\<lambda>c. if cat_id c = i then f c else c) s = s"
      by (rule map_if_id_absent)
    with True show ?thesis by simp
  next
    case False
    then show ?thesis using Cons by (simp add: ids_def)
  qed
qed

lemma bulkWrite_distinct:
  assumes "\<And>c. cat_id (g c) = cat_id c" and "\<And>c. g (g c) = g c"
  shows "distinct (ids s) \<Longrightarrow>
    bulkWrite (map (\<lambda>x. (cat_id x, g)) xs) s
      = map (\<lambda>c. if cat_id c \<in> cat_id ` set xs then g c else c) s"
proof (induction xs arbitrary: s)
  case Nil
  then show ?case by simp
next
  case (Cons x xs)
  have d: "distinct (ids (updateOne (cat_id x) g s))"
    using Cons.prems by (simp add: ids_updateOne assms(1))
  show ?case
    using Cons.IH [OF d] Cons.prems
    by (auto simp: updateOne_distinct assms)
qed

lemma findByIdAndDelete_distinct:
  "distinct (ids s) \<Longrightarrow> findByIdAndDelete i s = filter (\<lambda>c. cat_id c \<noteq> i) s"
proof (induction s)
  case Nil
  then show ?case by simp
next
  case (Cons a s)
  show ?case
  proof (cases "cat_id a = i")
    case True
    then have "i \<notin> cat_id ` set s" using Cons.prems by (auto simp: ids_def)
    then have "\<forall>c\<in>set s. cat_id c \<noteq> i" by blast
    then have "filter (\<lambda>c. cat_id c \<noteq> i) s = s" by (simp add: filter_id_conv)
    with True show ?thesis by simp
  next
    case False
    then show ?thesis using Cons by (simp add: ids_def)
  qed
qed

lemma child_relI: "c \<in> set cs \<Longrightarrow> cat_parent c = Some p \<Longrightarrow> (p, cat_id c) \<in> child_rel cs"
  unfolding child_rel_def child_edges_def by force

lemma child_rel_iff:
  "(p, k) \<in> child_rel cs \<longleftrightarrow> (\<exists>c\<in>set cs. cat_parent c = Some p \<and> cat_id c = k)"
  unfolding child_rel_def child_edges_def by (force split: option.splits)

lemma child_ids_distinct:
  "distinct (ids s) \<Longrightarrow> c \<in> set s \<Longrightarrow>
     cat_id c \<in> cat_id ` set (findByParent i s) \<longleftrightarrow> cat_parent c = Some i"
  unfolding findByParent_def ids_def by (auto simp: distinct_map inj_on_def)

lemma reparent_store:
  assumes "distinct (ids s)"
  shows "(if length (findByParent i s) > 0
          then bulkWrite (map (\<lambda>subcat. (cat_id subcat, \<lambda>c. c\<lparr>cat_parent := q\<rparr>))
                            (findByParent i s)) s
          else s)
         = map (\<lambda>c. if cat_parent c = Some i then c\<lparr>cat_parent := q\<rparr> else c) s"
proof (cases "findByParent i s = []")
  case True
  then have "\<forall>c\<in>set s. cat_parent c \<noteq> Some i"
    unfolding findByParent_def by (simp add: filter_empty_conv)
  then have "map (\<lambda>c. if cat_parent c = Some i then c\<lparr>cat_parent := q\<rparr> else c) s = s"
    by (simp add: map_idI)
  with True show ?thesis by simp
next
  case False
  have "bulkWrite (map (\<lambda>subcat. (cat_id subcat, \<lambda>c. c\<lparr>cat_parent := q\<rparr>))
                            (findByParent i s)) s
     = map (\<lambda>c. if cat_id c \<in> cat_id ` set (findByParent i s)
                   then c\<lparr>cat_parent := q\<rparr> else c) s"
    by (rule bulkWrite_distinct) (simp_all add: assms)
  also have "\<dots> = map (\<lambda>c. if cat_parent c = Some i then c\<lparr>cat_parent := q\<rparr> else c) s"
    by (rule map_cong) (simp_all add: child_ids_distinct [OF assms])
  finally show ?thesis using False by simp
qed

lemma deleteCategory_store:
  assumes "distinct (ids s)" and "isValid i" and "findById i s = Some cat"
  shows "deleteCategory isValid i s =
           (Some \<lparr>code = 200,
                  message = ''Category deleted successfully and subcategories reassigned''\<rparr>,
            filter (\<lambda>c. cat_id c \<noteq> i)
              (map (\<lambda>c. if cat_parent c = Some i then c\<lparr>cat_parent := cat_parent cat\<rparr> else c) s))"
proof -
  let ?s1 = "map (\<lambda>c. if cat_parent c = Some i then c\<lparr>cat_parent := cat_parent cat\<rparr> else c) s"
  have "ids ?s1 = ids s" by (simp add: ids_def comp_def if_distrib cong: if_cong)
  then have "distinct (ids ?s1)" using assms(1) by simp
  then have "findByIdAndDelete i ?s1 = filter (\<lambda>c. cat_id c \<noteq> i) ?s1"
    by (rule findByIdAndDelete_distinct)
  then show ?thesis
    using assms(2,3) reparent_store [OF assms(1), of i "cat_parent cat"]
    by (simp add: deleteCategory_def Let_def send_def)
qed

lemma filter_updateOne_other:
  "(\<And>c. cat_id (f c) = cat_id c) \<Longrightarrow>
     filter (\<lambda>c. cat_id c \<noteq> i) (updateOne i f s) = filter (\<lambda>c. cat_id c \<noteq> i) s"
  by (induction s) auto

section \<open>Facts about chains and the listing\<close>

lemma fold_None:
  "fold (\<lambda>x acc. case acc of None \<Rightarrow> None | Some a \<Rightarrow> F x a) xs None = None"
  by (induction xs) auto

lemma fold_push:
  "fold (\<lambda>x acc. case acc of None \<Rightarrow> None
           | Some a \<Rightarrow> (case f x of None \<Rightarrow> None | Some b \<Rightarrow> Some (a @ [g x] @ b)))
        xs (Some a0)
   = (if \<forall>x\<in>set xs. f x \<noteq> None
      then Some (a0 @ concat (map (\<lambda>x. g x # the (f x)) xs)) else None)"
proof (induction xs arbitrary: a0)
  case Nil
  then show ?case by simp
next
  case (Cons x xs)
  show ?case
  proof (cases "f x")
    case None
    then show ?thesis by (simp add: fold_None)
  next
    case (Some b)
    then show ?thesis using Cons.IH [of "a0 @ [g x] @ b"] by simp
  qed
qed

lemma filter_parent:
  "filter (\<lambda>cat. cat_parent cat \<noteq> None \<and> the (cat_parent cat) = p) cs = findByParent p cs"
  unfolding findByParent_def by (rule filter_cong) auto

lemma getAllDescendantIds_eq:
  "getAllDescendantIds n p cs = (if within n cs p then Some (preorder n cs p) else None)"
proof (induction n arbitrary: p)
  case 0
  then show ?case by simp
next
  case (Suc n)
  have "getAllDescendantIds (Suc n) p cs =
     (if \<forall>c\<in>set (findByParent p cs). getAllDescendantIds n (cat_id c) cs \<noteq> None
      then Some ([] @ concat (map (\<lambda>c. cat_id c # the (getAllDescendantIds n (cat_id c) cs))
                          (findByParent p cs))) else None)"
    unfolding getAllDescendantIds.simps Let_def filter_parent by (rule fold_push)
  note unfolded = this
  have ok: "(\<forall>c\<in>set (findByParent p cs). getAllDescendantIds n (cat_id c) cs \<noteq> None)
     \<longleftrightarrow> within (Suc n) cs p"
    by (simp add: Suc.IH list_all_iff)
  show ?case
  proof (cases "within (Suc n) cs p")
    case True
    then have "map (\<lambda>c. cat_id c # the (getAllDescendantIds n (cat_id c) cs)) (findByParent p cs)
       = map (\<lambda>c. cat_id c # preorder n cs (cat_id c)) (findByParent p cs)"
      by (intro map_cong) (simp_all add: Suc.IH list_all_iff)
    then have "preorder (Suc n) cs p
       = concat (map (\<lambda>c. cat_id c # the (getAllDescendantIds n (cat_id c) cs))
                  (findByParent p cs))"
      by (simp only: preorder.simps)
    with True ok unfolded show ?thesis by (simp only: if_True append_Nil)
  next
    case False
    with ok unfolded show ?thesis by (simp only: if_False)
  qed
qed

lemma within_chain:
  "within n cs p \<longleftrightarrow> (\<forall>path. chain cs p path \<longrightarrow> length path < n)"
proof (induction n arbitrary: p)
  case 0
  have "\<exists>path. chain cs p path" by (rule exI [of _ "[]"]) simp
  then show ?case by simp
next
  case (Suc n)
  show ?case
  proof
    assume w: "within (Suc n) cs p"
    show "\<forall>path. chain cs p path \<longrightarrow> length path < Suc n"
    proof (intro allI impI)
      fix path assume c: "chain cs p path"
      show "length path < Suc n"
      proof (cases path)
        case Nil
        then show ?thesis by simp
      next
        case (Cons x xs)
        with c have "(p, x) \<in> child_rel cs" and cx: "chain cs x xs" by simp_all
        then obtain k where "k \<in> set (findByParent p cs)" "cat_id k = x"
          by (auto simp: child_rel_iff findByParent_def)
        with w have "within n cs x" by (auto simp: list_all_iff)
        with cx Suc.IH have "length xs < n" by blast
        with Cons show ?thesis by simp
      qed
    qed
  next
    assume a: "\<forall>path. chain cs p path \<longrightarrow> length path < Suc n"
    have "within n cs (cat_id c)" if "c \<in> set (findByParent p cs)" for c
    proof -
      from that have e: "(p, cat_id c) \<in> child_rel cs"
        by (auto simp: findByParent_def intro: child_relI)
      have "\<forall>path. chain cs (cat_id c) path \<longrightarrow> length path < n"
      proof (intro allI impI)
        fix path assume "chain cs (cat_id c) path"
        with e have "chain cs p (cat_id c # path)" by simp
        with a have "length (cat_id c # path) < Suc n" by blast
        then show "length path < n" by simp
      qed
      then show ?thesis using Suc.IH by blast
    qed
    then show "within (Suc n) cs p" by (simp add: list_all_iff)
  qed
qed

lemma chain_descendants:
  "chain cs p path \<Longrightarrow> x \<in> set path \<Longrightarrow> (p, x) \<in> (child_rel cs)\<^sup>+"
proof (induction path arbitrary: p)
  case Nil
  then show ?case by simp
next
  case (Cons y ys)
  then have e: "(p, y) \<in> child_rel cs" and c: "chain cs y ys" by simp_all
  show ?case
  proof (cases "x = y")
    case True
    with e show ?thesis by blast
  next
    case False
    with Cons.prems have "x \<in> set ys" by simp
    from Cons.IH [OF c this] e show ?thesis by (rule trancl_into_trancl2[rotated])
  qed
qed

lemma chain_distinct:
  "acyclic (child_rel cs) \<Longrightarrow> chain cs p path \<Longrightarrow> distinct path"
proof (induction path arbitrary: p)
  case Nil
  then show ?case by simp
next
  case (Cons y ys)
  then have c: "chain cs y ys" by simp
  have "y \<notin> set ys"
  proof
    assume "y \<in> set ys"
    from chain_descendants [OF c this] Cons.prems(1) show False
      by (simp add: acyclic_def)
  qed
  with Cons.IH [OF Cons.prems(1) c] show ?case by simp
qed

lemma chain_range: "chain cs p path \<Longrightarrow> set path \<subseteq> snd ` set (child_edges cs)"
proof (induction path arbitrary: p)
  case Nil
  then show ?case by simp
next
  case (Cons x xs)
  then have "(p, x) \<in> set (child_edges cs)" and c: "chain cs x xs"
    by (simp_all add: child_rel_def)
  then have "snd (p, x) \<in> snd ` set (child_edges cs)" by (intro imageI)
  with Cons.IH [OF c] show ?case by simp
qed

lemma length_child_edges: "length (child_edges cs) \<le> length cs"
  unfolding child_edges_def by (induction cs) (auto split: option.splits)

lemma chain_length:
  assumes "acyclic (child_rel cs)" and "chain cs p path"
  shows "length path \<le> length cs"
proof -
  have "length path = card (set path)"
    using chain_distinct [OF assms] by (simp add: distinct_card)
  also have "\<dots> \<le> card (snd ` set (child_edges cs))"
    by (rule card_mono) (simp_all add: chain_range [OF assms(2)])
  also have "\<dots> \<le> card (set (child_edges cs))" by (rule card_image_le) simp
  also have "\<dots> \<le> length (child_edges cs)" by (rule card_length)
  also have "\<dots> \<le> length cs" by (rule length_child_edges)
  finally show ?thesis .
qed

lemma acyclic_within: "acyclic (child_rel cs) \<Longrightarrow> within (Suc (length cs)) cs p"
  unfolding within_chain using chain_length by (auto simp: less_Suc_eq_le)

lemma within_mono: "within n cs p \<Longrightarrow> n \<le> m \<Longrightarrow> within m cs p"
  unfolding within_chain by (meson less_le_trans)

lemma preorder_mono: "within n cs p \<Longrightarrow> n \<le> m \<Longrightarrow> preorder m cs p = preorder n cs p"
proof (induction n arbitrary: m p)
  case 0
  then show ?case by simp
next
  case (Suc n)
  then obtain m' where m: "m = Suc m'" "n \<le> m'" by (cases m) auto
  have "map (\<lambda>c. cat_id c # preorder m' cs (cat_id c)) (findByParent p cs)
      = map (\<lambda>c. cat_id c # preorder n cs (cat_id c)) (findByParent p cs)"
  proof (intro map_cong refl)
    fix c assume "c \<in> set (findByParent p cs)"
    with Suc.prems(1) have "within n cs (cat_id c)" by (simp add: list_all_iff)
    from Suc.IH [OF this m(2)]
    show "cat_id c # preorder m' cs (cat_id c) = cat_id c # preorder n cs (cat_id c)"
      by simp
  qed
  then show ?case by (simp only: m(1) preorder.simps)
qed

lemma chain_take: "chain cs p path \<Longrightarrow> chain cs p (take k path)"
proof (induction path arbitrary: p k)
  case Nil
  then show ?case by simp
next
  case (Cons x xs)
  then show ?case by (cases k) auto
qed

lemma depth_exists:
  assumes "acyclic (child_rel cs)"
  shows "\<exists>d\<le>length cs. (\<exists>path. chain cs p path \<and> length path = d)
           \<and> (\<forall>path. chain cs p path \<longrightarrow> length path \<le> d)
           \<and> (\<forall>n. within n cs p \<longleftrightarrow> d < n)"
proof -
  define m where "m = (LEAST n. within n cs p)"
  have wm: "within m cs p"
    unfolding m_def using acyclic_within [OF assms] by (rule LeastI)
  have least: "\<And>n. within n cs p \<Longrightarrow> m \<le> n"
    unfolding m_def by (rule Least_le)
  have "m \<noteq> 0" using wm by (cases m) auto
  then obtain d where d: "m = Suc d" by (cases m) auto
  have le: "d \<le> length cs" using least [OF acyclic_within [OF assms]] d by simp
  have iff: "\<forall>n. within n cs p \<longleftrightarrow> d < n"
    using least within_mono [OF wm] d by (auto simp: less_eq_Suc_le)
  have up: "\<forall>path. chain cs p path \<longrightarrow> length path \<le> d"
    using wm d by (auto simp: within_chain less_Suc_eq_le)
  have "\<not> within d cs p" using iff by blast
  then obtain path where p: "chain cs p path" "d \<le> length path"
    by (auto simp: within_chain not_less)
  then have "chain cs p (take d path)" "length (take d path) = d"
    by (simp_all add: chain_take)
  with le iff up show ?thesis by blast
qed

section \<open>Facts about descendants\<close>

lemma child_ids: "cat_id ` set (findByParent p cs) = {k. (p, k) \<in> child_rel cs}"
  by (auto simp: child_rel_iff findByParent_def)

lemma descendants_unfold:
  "descendants cs p = (\<Union>k\<in>{k. (p, k) \<in> child_rel cs}. insert k (descendants cs k))"
proof (rule set_eqI)
  fix d
  have "(p, d) \<in> (child_rel cs)\<^sup>+ \<longleftrightarrow>
        (\<exists>k. (p, k) \<in> child_rel cs \<and> (k, d) \<in> (child_rel cs)\<^sup>*)"
    by (metis tranclD rtrancl_into_trancl2)
  also have "\<dots> \<longleftrightarrow> (\<exists>k. (p, k) \<in> child_rel cs \<and> (d = k \<or> (k, d) \<in> (child_rel cs)\<^sup>+))"
    by (metis rtrancl_eq_or_trancl)
  finally show "d \<in> descendants cs p \<longleftrightarrow>
      d \<in> (\<Union>k\<in>{k. (p, k) \<in> child_rel cs}. insert k (descendants cs k))"
    by (auto simp: descendants_def)
qed

lemma set_preorder_Suc:
  "set (preorder (Suc n) cs p)
     = (\<Union>c\<in>set (findByParent p cs). insert (cat_id c) (set (preorder n cs (cat_id c))))"
  by auto

lemma set_preorder_subset: "set (preorder n cs p) \<subseteq> descendants cs p"
proof (induction n arbitrary: p)
  case 0
  then show ?case by simp
next
  case (Suc n)
  show ?case
  proof
    fix d assume "d \<in> set (preorder (Suc n) cs p)"
    then obtain c where c: "c \<in> set (findByParent p cs)"
      and d: "d = cat_id c \<or> d \<in> set (preorder n cs (cat_id c))"
      unfolding set_preorder_Suc by blast
    from c have "cat_id c \<in> {k. (p, k) \<in> child_rel cs}"
      unfolding child_ids [symmetric] by (rule imageI)
    moreover from d Suc.IH have "d \<in> insert (cat_id c) (descendants cs (cat_id c))"
      by blast
    ultimately show "d \<in> descendants cs p"
      by (subst descendants_unfold) blast
  qed
qed

lemma set_preorder: "within n cs p \<Longrightarrow> set (preorder n cs p) = descendants cs p"
proof (induction n arbitrary: p)
  case 0
  then show ?case by simp
next
  case (Suc n)
  have "descendants cs p \<subseteq> set (preorder (Suc n) cs p)"
  proof
    fix d assume "d \<in> descendants cs p"
    then obtain k where k: "(p, k) \<in> child_rel cs" and d: "d \<in> insert k (descendants cs k)"
      by (subst (asm) descendants_unfold) blast
    from k have "k \<in> cat_id ` set (findByParent p cs)"
      unfolding child_ids by simp
    then obtain c where c: "c \<in> set (findByParent p cs)" "cat_id c = k"
      by (auto simp: image_iff)
    with Suc.prems have "within n cs k" by (auto simp: list_all_iff)
    with Suc.IH have "set (preorder n cs k) = descendants cs k" by blast
    with d c show "d \<in> set (preorder (Suc n) cs p)"
      unfolding set_preorder_Suc by blast
  qed
  with set_preorder_subset show ?case by blast
qed

lemma parent_unique:
  assumes "distinct (ids cs)" and "(a, x) \<in> child_rel cs" and "(b, x) \<in> child_rel cs"
  shows "a = b"
proof -
  from assms(2,3) obtain c c' where c: "c \<in> set cs" "cat_parent c = Some a" "cat_id c = x"
    and c': "c' \<in> set cs" "cat_parent c' = Some b" "cat_id c' = x"
    by (auto simp: child_rel_iff)
  from assms(1) have "inj_on cat_id (set cs)" by (simp add: ids_def distinct_map)
  with c c' have "c = c'" by (auto dest: inj_onD)
  with c c' show ?thesis by simp
qed

lemma ancestors_linear:
  assumes uniq: "\<forall>a b x. (a, x) \<in> r \<longrightarrow> (b, x) \<in> r \<longrightarrow> a = b"
  shows "(a, x) \<in> r\<^sup>* \<Longrightarrow> \<forall>b. (b, x) \<in> r\<^sup>* \<longrightarrow> (a, b) \<in> r\<^sup>* \<or> (b, a) \<in> r\<^sup>*"
proof (induction rule: rtrancl_induct)
  case base
  then show ?case by blast
next
  case (step y z)
  show ?case
  proof (intro allI impI)
    fix b assume "(b, z) \<in> r\<^sup>*"
    then consider "b = z" | y' where "(b, y') \<in> r\<^sup>*" "(y', z) \<in> r"
      by (metis rtranclE)
    then show "(a, b) \<in> r\<^sup>* \<or> (b, a) \<in> r\<^sup>*"
    proof cases
      case 1
      with step.hyps show ?thesis by auto
    next
      case 2
      with step.hyps(2) uniq have "y' = y" by blast
      with 2 step.IH show ?thesis by blast
    qed
  qed
qed

lemma siblings_unrelated:
  assumes "distinct (ids cs)" and "acyclic (child_rel cs)"
    and "(p, k1) \<in> child_rel cs" and "(p, k2) \<in> child_rel cs" and "k1 \<noteq> k2"
  shows "(k1, k2) \<notin> (child_rel cs)\<^sup>*"
proof
  assume "(k1, k2) \<in> (child_rel cs)\<^sup>*"
  with assms(5) obtain y where y: "(k1, y) \<in> (child_rel cs)\<^sup>*" "(y, k2) \<in> child_rel cs"
    by (metis rtranclE)
  with parent_unique [OF assms(1) _ assms(4)] have "y = p" by blast
  with y assms(3) have "(p, p) \<in> (child_rel cs)\<^sup>+" by (simp add: rtrancl_into_trancl2)
  with assms(2) show False by (simp add: acyclic_def)
qed

lemma unrelated_disjoint:
  assumes "distinct (ids cs)"
    and "(k1, k2) \<notin> (child_rel cs)\<^sup>*" and "(k2, k1) \<notin> (child_rel cs)\<^sup>*"
  shows "insert k1 (descendants cs k1) \<inter> insert k2 (descendants cs k2) = {}"
proof -
  have uniq: "\<forall>a b x. (a, x) \<in> child_rel cs \<longrightarrow> (b, x) \<in> child_rel cs \<longrightarrow> a = b"
    using parent_unique [OF assms(1)] by blast
  have "False" if "(k1, x) \<in> (child_rel cs)\<^sup>*" "(k2, x) \<in> (child_rel cs)\<^sup>*" for x
    using ancestors_linear [of "child_rel cs" k1 x, OF uniq that(1)]
      that(2) assms(2,3) by blast
  moreover have "insert k (descendants cs k) = {x. (k, x) \<in> (child_rel cs)\<^sup>*}" for k
    by (auto simp: descendants_def rtrancl_eq_or_trancl)
  ultimately show ?thesis by blast
qed

lemma distinct_concat_heads:
  assumes "distinct (map g xs)"
    and "\<And>x. x \<in> set xs \<Longrightarrow> g x \<notin> set (f x) \<and> distinct (f x)"
    and "\<And>x y. x \<in> set xs \<Longrightarrow> y \<in> set xs \<Longrightarrow> g x \<noteq> g y \<Longrightarrow>
            insert (g x) (set (f x)) \<inter> insert (g y) (set (f y)) = {}"
  shows "distinct (concat (map (\<lambda>x. g x # f x) xs))"
  using assms
proof (induction xs)
  case Nil
  then show ?case by simp
next
  case (Cons x xs)
  have rest: "distinct (concat (map (\<lambda>x. g x # f x) xs))"
    using Cons.prems by (intro Cons.IH) auto
  have disj: "insert (g x) (set (f x)) \<inter> insert (g y) (set (f y)) = {}" if "y \<in> set xs" for y
  proof -
    from that Cons.prems(1) have "g x \<noteq> g y" by auto
    with that Cons.prems(3) [of x y] show ?thesis by simp
  qed
  have "insert (g x) (set (f x)) \<inter> set (concat (map (\<lambda>x. g x # f x) xs)) = {}"
    using disj by fastforce
  with rest Cons.prems(2) [of x] show ?case by auto
qed

lemma not_self_descendant: "acyclic (child_rel cs) \<Longrightarrow> p \<notin> descendants cs p"
  by (simp add: descendants_def acyclic_def)

lemma distinct_preorder:
  assumes "distinct (ids cs)" and "acyclic (child_rel cs)"
  shows "distinct (preorder n cs p)"
proof (induction n arbitrary: p)
  case 0
  then show ?case by simp
next
  case (Suc n)
  have kids: "distinct (map cat_id (findByParent p cs))"
    using assms(1) unfolding findByParent_def ids_def by (rule distinct_map_filter)
  have "distinct (concat (map (\<lambda>c. cat_id c # preorder n cs (cat_id c)) (findByParent p cs)))"
  proof (rule distinct_concat_heads [OF kids])
    fix c
    show "cat_id c \<notin> set (preorder n cs (cat_id c)) \<and> distinct (preorder n cs (cat_id c))"
      using set_preorder_subset [of n cs "cat_id c"] not_self_descendant [OF assms(2)] Suc.IH
      by blast
  next
    fix c c' assume c: "c \<in> set (findByParent p cs)" "c' \<in> set (findByParent p cs)"
      "cat_id c \<noteq> cat_id c'"
    then have e: "(p, cat_id c) \<in> child_rel cs" "(p, cat_id c') \<in> child_rel cs"
      using child_ids [of p cs] by blast+
    have "insert (cat_id c) (descendants cs (cat_id c))
            \<inter> insert (cat_id c') (descendants cs (cat_id c')) = {}"
      using siblings_unrelated [OF assms e c(3)] siblings_unrelated [OF assms e(2,1)] c(3)
      by (intro unrelated_disjoint [OF assms(1)]) auto
    then show "insert (cat_id c) (set (preorder n cs (cat_id c)))
        \<inter> insert (cat_id c') (set (preorder n cs (cat_id c'))) = {}"
      using set_preorder_subset [of n cs "cat_id c"] set_preorder_subset [of n cs "cat_id c'"]
      by blast
  qed
  then show ?case by simp
qed

section \<open>Facts about the cascade\<close>

lemma ids_skeleton: "ids s = map fst (skeleton s)"
  by (simp add: ids_def skeleton_def comp_def)

lemma child_ids_skeleton:
  "map cat_id (findByParent p s) = map fst (filter (\<lambda>x. snd x = Some p) (skeleton s))"
  by (simp add: findByParent_def skeleton_def filter_map comp_def)

lemma child_edges_skeleton:
  "child_edges s =
     concat (map (\<lambda>x. case snd x of None \<Rightarrow> [] | Some p \<Rightarrow> [(p, fst x)]) (skeleton s))"
  unfolding child_edges_def skeleton_def
  by (induction s) (simp_all split: option.splits)

lemma child_rel_skeleton: "skeleton s' = skeleton s \<Longrightarrow> child_rel s' = child_rel s"
  by (simp add: child_rel_def child_edges_skeleton)

lemma descendants_skeleton: "skeleton s' = skeleton s \<Longrightarrow> descendants s' p = descendants s p"
  using child_rel_skeleton [of s' s] by (simp add: descendants_def)

lemma within_Suc_ids:
  "within (Suc n) s p = list_all (within n s) (map cat_id (findByParent p s))"
  by (simp add: list_all_iff)

lemma within_skeleton: "skeleton s' = skeleton s \<Longrightarrow> within n s' p = within n s p"
proof (induction n arbitrary: p)
  case 0
  then show ?case by simp
next
  case (Suc n)
  then have "within n s' = within n s" by blast
  then show ?case
    unfolding within_Suc_ids child_ids_skeleton using Suc.prems by simp
qed

lemma skeleton_updateOne:
  "(\<And>c. cat_id (f c) = cat_id c \<and> cat_parent (f c) = cat_parent c) \<Longrightarrow>
     skeleton (updateOne i f s) = skeleton s"
  by (induction s) (simp_all add: skeleton_def)

lemma skeleton_bulkWrite:
  "(\<And>c. cat_id (g c) = cat_id c \<and> cat_parent (g c) = cat_parent c) \<Longrightarrow>
     skeleton (bulkWrite (map (\<lambda>x. (cat_id x, g)) xs) s) = skeleton s"
  by (induction xs arbitrary: s) (simp_all add: skeleton_updateOne)

lemma skeleton_mark: "skeleton (mark D st s) = skeleton s"
  unfolding skeleton_def mark_def by (induction s) simp_all

lemma ids_mark: "ids (mark D st s) = ids s"
  by (simp add: ids_skeleton skeleton_mark)

lemma mark_mark: "mark B st (mark A st s) = mark (A \<union> B) st s"
  by (auto simp: mark_def)

lemma mark_empty: "mark {} st s = s"
  by (simp add: mark_def)

lemma bulkWrite_mark:
  "distinct (ids s) \<Longrightarrow>
     bulkWrite (map (\<lambda>child. (cat_id child, \<lambda>c. c\<lparr>cat_status := st\<rparr>)) ks) s
       = mark (cat_id ` set ks) st s"
  unfolding mark_def by (rule bulkWrite_distinct) simp_all

lemma cascade_loop_general:
  assumes IH: "\<And>p x. (updateDescendantStatus n p st x = None \<longleftrightarrow> \<not> within n x p)
                 \<and> (\<forall>x'. updateDescendantStatus n p st x = Some x' \<longrightarrow> skeleton x' = skeleton x)"
  shows "skeleton x = skeleton s \<Longrightarrow>
     (fold (\<lambda>child acc. case acc of None \<Rightarrow> None
              | Some s2 \<Rightarrow> updateDescendantStatus n (cat_id child) st s2) xs (Some x) = None
        \<longleftrightarrow> \<not> list_all (\<lambda>c. within n s (cat_id c)) xs)
     \<and> (\<forall>s'. fold (\<lambda>child acc. case acc of None \<Rightarrow> None
              | Some s2 \<Rightarrow> updateDescendantStatus n (cat_id child) st s2) xs (Some x) = Some s'
           \<longrightarrow> skeleton s' = skeleton s)"
proof (induction xs arbitrary: x)
  case Nil
  then show ?case by simp
next
  case (Cons c xs)
  show ?case
  proof (cases "updateDescendantStatus n (cat_id c) st x")
    case None
    with IH [of "cat_id c" x] have "\<not> within n s (cat_id c)"
      using within_skeleton [OF Cons.prems] by simp
    with None show ?thesis by (simp add: fold_None)
  next
    case (Some x')
    with IH [of "cat_id c" x] have w: "within n s (cat_id c)" and sk: "skeleton x' = skeleton s"
      using within_skeleton [OF Cons.prems] Cons.prems by auto
    from Cons.IH [OF sk] Some w show ?thesis by simp
  qed
qed

lemma cascade_general:
  "(updateDescendantStatus n p st s = None \<longleftrightarrow> \<not> within n s p)
   \<and> (\<forall>s'. updateDescendantStatus n p st s = Some s' \<longrightarrow> skeleton s' = skeleton s)"
proof (induction n arbitrary: p s)
  case 0
  then show ?case by simp
next
  case (Suc n)
  show ?case
  proof (cases "findByParent p s = []")
    case True
    then show ?thesis by simp
  next
    case False
    let ?s1 = "bulkWrite (map (\<lambda>child. (cat_id child, \<lambda>c. c\<lparr>cat_status := st\<rparr>))
                 (findByParent p s)) s"
    have sk: "skeleton ?s1 = skeleton s" by (rule skeleton_bulkWrite) simp
    from cascade_loop_general [of n st ?s1 s "findByParent p s", OF Suc.IH sk] False
    show ?thesis by (simp add: Let_def)
  qed
qed

lemma cascade_terminates_iff: "updateDescendantStatus n p st s \<noteq> None \<longleftrightarrow> within n s p"
  using cascade_general [of n p st s] by simp

lemma cascade_skeleton: "updateDescendantStatus n p st s = Some s' \<Longrightarrow> skeleton s' = skeleton s"
  using cascade_general [of n p st s] by blast

lemma cascade_loop_mark:
  assumes IH: "\<And>p x x'. distinct (ids x) \<Longrightarrow> updateDescendantStatus n p st x = Some x' \<Longrightarrow>
                 x' = mark (descendants x p) st x"
    and d: "distinct (ids s)"
  shows "fold (\<lambda>child acc. case acc of None \<Rightarrow> None
              | Some s2 \<Rightarrow> updateDescendantStatus n (cat_id child) st s2) xs
            (Some (mark A st s)) = Some s'
     \<Longrightarrow> s' = mark (A \<union> (\<Union>c\<in>set xs. descendants s (cat_id c))) st s"
proof (induction xs arbitrary: A)
  case Nil
  then show ?case by simp
next
  case (Cons c xs)
  show ?case
  proof (cases "updateDescendantStatus n (cat_id c) st (mark A st s)")
    case None
    with Cons.prems show ?thesis by (simp add: fold_None)
  next
    case (Some x')
    have "distinct (ids (mark A st s))" using d by (simp add: ids_mark)
    from IH [OF this Some]
    have "x' = mark (A \<union> descendants s (cat_id c)) st s"
      by (simp add: descendants_skeleton [OF skeleton_mark] mark_mark)
    with Cons.prems Some
    have "s' = mark ((A \<union> descendants s (cat_id c))
                \<union> (\<Union>c\<in>set xs. descendants s (cat_id c))) st s"
      by (intro Cons.IH) simp
    then show ?thesis by (simp add: Un_assoc)
  qed
qed

lemma cascade_mark:
  "distinct (ids s) \<Longrightarrow> updateDescendantStatus n p st s = Some s' \<Longrightarrow>
     s' = mark (descendants s p) st s"
proof (induction n arbitrary: p s s')
  case 0
  then show ?case by simp
next
  case (Suc n)
  have du: "descendants s p
     = cat_id ` set (findByParent p s) \<union> (\<Union>c\<in>set (findByParent p s). descendants s (cat_id c))"
    by (subst descendants_unfold, subst child_ids [symmetric]) auto
  show ?case
  proof (cases "findByParent p s = []")
    case True
    with du have "descendants s p = {}" by simp
    with True Suc.prems show ?thesis by (simp add: mark_empty)
  next
    case False
    with Suc.prems(2)
    have "fold (\<lambda>child acc. case acc of None \<Rightarrow> None
              | Some s2 \<Rightarrow> updateDescendantStatus n (cat_id child) st s2) (findByParent p s)
            (Some (mark (cat_id ` set (findByParent p s)) st s)) = Some s'"
      by (simp add: Let_def bulkWrite_mark [OF Suc.prems(1)])
    from cascade_loop_mark [OF Suc.IH Suc.prems(1) this] du show ?thesis by simp
  qed
qed

section \<open>Facts about the tree builder\<close>

lemma fold_fill_other:
  "k \<notin> set (ids cs) \<Longrightarrow>
     fold (\<lambda>category m. m(cat_id category \<mapsto>
             \<lparr>node_id = cat_id category, node_name = cat_name category,
              node_status = cat_status category, children = []\<rparr>)) cs m k = m k"
  by (induction cs arbitrary: m) (simp_all add: ids_def)

lemma fold_fill_member:
  "distinct (ids cs) \<Longrightarrow> c \<in> set cs \<Longrightarrow>
     fold (\<lambda>category m. m(cat_id category \<mapsto>
             \<lparr>node_id = cat_id category, node_name = cat_name category,
              node_status = cat_status category, children = []\<rparr>)) cs m (cat_id c)
       = Some (node_of c [])"
proof (induction cs arbitrary: m)
  case Nil
  then show ?case by simp
next
  case (Cons a cs)
  show ?case
  proof (cases "c = a")
    case True
    with Cons.prems have notin: "cat_id a \<notin> set (ids cs)" by (simp add: ids_def)
    let ?F = "\<lambda>category m. m(cat_id category \<mapsto>
             \<lparr>node_id = cat_id category, node_name = cat_name category,
              node_status = cat_status category, children = []\<rparr>)"
    have "fold ?F (a # cs) m (cat_id a) = fold ?F cs (?F a m) (cat_id a)" by simp
    also have "\<dots> = (?F a m) (cat_id a)" by (rule fold_fill_other [OF notin])
    also have "\<dots> = Some (node_of a [])" by (simp add: node_of_def)
    finally show ?thesis by (simp only: True)
  next
    case False
    with Cons show ?thesis by (simp add: ids_def)
  qed
qed

lemma fillMap_eq:
  assumes "distinct (ids cs)"
  shows "fillMap cs k = map_option (\<lambda>c. node_of c []) (findById k cs)"
proof (cases "findById k cs")
  case None
  then have "k \<notin> set (ids cs)" by (simp add: findById_None_iff)
  with None show ?thesis by (simp add: fillMap_def fold_fill_other)
next
  case (Some c)
  then have "c \<in> set cs" "cat_id c = k" by (auto dest: findById_SomeD)
  with Some fold_fill_member [OF assms, of c Map.empty] show ?thesis
    by (simp add: fillMap_def)
qed

lemma dom_fillMap: "distinct (ids cs) \<Longrightarrow> dom (fillMap cs) = set (ids cs)"
  unfolding dom_def by (simp add: fillMap_eq findById_None_iff)

lemma fold_link:
  "set (ids xs) \<subseteq> dom m \<Longrightarrow>
     fold link xs (m, roots)
       = ((\<lambda>k. map_option
                 (\<lambda>nd. nd\<lparr>children := children nd @ map cat_id (findByParent k xs)\<rparr>) (m k)),
          roots @ map cat_id
                    (filter (\<lambda>c. case cat_parent c of None \<Rightarrow> True | Some p \<Rightarrow> m p = None) xs))"
proof (induction xs arbitrary: m roots)
  case Nil
  show ?case by (simp add: findByParent_def fun_eq_iff option.map_ident map_option_idI)
next
  case (Cons c xs)
  from Cons.prems obtain mc where mc: "m (cat_id c) = Some mc" by (auto simp: ids_def)
  from Cons.prems have sub: "set (ids xs) \<subseteq> dom m" by (simp add: ids_def)
  show ?case
  proof (cases "cat_parent c")
    case None
    then have l: "link c (m, roots) = (m, roots @ [cat_id c])"
      by (simp add: link_def mc)
    show ?thesis
      using Cons.IH [OF sub, of "roots @ [cat_id c]"] None
      by (simp add: l findByParent_def)
  next
    case (Some p)
    show ?thesis
    proof (cases "m p")
      case None
      with Some have l: "link c (m, roots) = (m, roots @ [cat_id c])"
        by (simp add: link_def mc)
      show ?thesis
        using Cons.IH [OF sub, of "roots @ [cat_id c]"] Some None
        by (auto simp: l findByParent_def fun_eq_iff)
    next
      case (Some parent)
      let ?m' = "m(p \<mapsto> parent\<lparr>children := children parent @ [cat_id c]\<rparr>)"
      from Some \<open>cat_parent c = Some p\<close> have l: "link c (m, roots) = (?m', roots)"
        by (simp add: link_def mc)
      have sub': "set (ids xs) \<subseteq> dom ?m'" using sub by auto
      have none: "\<And>q. ?m' q = None \<longleftrightarrow> m q = None" using Some by simp
      have heap_eq: "(\<lambda>k. map_option
                 (\<lambda>nd. nd\<lparr>children := children nd @ map cat_id (findByParent k xs)\<rparr>) (?m' k))
         = (\<lambda>k. map_option
                 (\<lambda>nd. nd\<lparr>children := children nd @ map cat_id (findByParent k (c # xs))\<rparr>)
                 (m k))"
        using Some \<open>cat_parent c = Some p\<close> by (auto simp: fun_eq_iff findByParent_def)
      have filt_eq: "filter (\<lambda>c. case cat_parent c of None \<Rightarrow> True | Some p \<Rightarrow> ?m' p = None) xs
         = filter (\<lambda>c. case cat_parent c of None \<Rightarrow> True | Some p \<Rightarrow> m p = None) (c # xs)"
        using Some \<open>cat_parent c = Some p\<close> by (simp only: none) simp
      have "fold link (c # xs) (m, roots) = fold link xs (?m', roots)" by (simp add: l)
      also note Cons.IH [OF sub', of roots]
      finally show ?thesis by (simp only: heap_eq filt_eq)
    qed
  qed
qed

lemma fold_link_ctl:
  "fold link_ctl xs (m, roots)
       = ((\<lambda>k. map_option
                 (\<lambda>nd. nd\<lparr>children := children nd @ map cat_id (findByParent k xs)\<rparr>) (m k)),
          roots @ map cat_id (filter (\<lambda>c. cat_parent c = None) xs))"
proof (induction xs arbitrary: m roots)
  case Nil
  show ?case by (simp add: findByParent_def fun_eq_iff option.map_ident map_option_idI)
next
  case (Cons c xs)
  show ?case
  proof (cases "cat_parent c")
    case None
    then have l: "link_ctl c (m, roots) = (m, roots @ [cat_id c])"
      by (simp add: link_ctl_def)
    show ?thesis
      using Cons.IH [of m "roots @ [cat_id c]"] None
      by (simp add: l findByParent_def)
  next
    case (Some p)
    show ?thesis
    proof (cases "m p")
      case None
      with Some have l: "link_ctl c (m, roots) = (m, roots)"
        by (simp add: link_ctl_def)
      show ?thesis
        using Cons.IH [of m roots] Some None
        by (auto simp: l findByParent_def fun_eq_iff)
    next
      case (Some parent)
      let ?m' = "m(p \<mapsto> parent\<lparr>children := children parent @ [cat_id c]\<rparr>)"
      from Some \<open>cat_parent c = Some p\<close> have l: "link_ctl c (m, roots) = (?m', roots)"
        by (simp add: link_ctl_def)
      have heap_eq: "(\<lambda>k. map_option
                 (\<lambda>nd. nd\<lparr>children := children nd @ map cat_id (findByParent k xs)\<rparr>) (?m' k))
         = (\<lambda>k. map_option
                 (\<lambda>nd. nd\<lparr>children := children nd @ map cat_id (findByParent k (c # xs))\<rparr>)
                 (m k))"
        using Some \<open>cat_parent c = Some p\<close> by (auto simp: fun_eq_iff findByParent_def)
      have filt_eq: "filter (\<lambda>c. cat_parent c = None) xs
         = filter (\<lambda>c. cat_parent c = None) (c # xs)"
        using \<open>cat_parent c = Some p\<close> by simp
      have "fold link_ctl (c # xs) (m, roots) = fold link_ctl xs (?m', roots)" by (simp add: l)
      also note Cons.IH [of ?m' roots]
      finally show ?thesis by (simp only: heap_eq filt_eq)
    qed
  qed
qed

lemma buildCategoryTree_eq:
  assumes "distinct (ids cs)"
  shows "buildCategoryTree cs = (heap_of cs, roots_of cs)"
proof -
  have sub: "set (ids cs) \<subseteq> dom (fillMap cs)" by (simp add: dom_fillMap [OF assms])
  have h: "(\<lambda>k. map_option
                 (\<lambda>nd. nd\<lparr>children := children nd @ map cat_id (findByParent k cs)\<rparr>)
                 (fillMap cs k)) = heap_of cs"
    by (auto simp: fun_eq_iff heap_of_def fillMap_eq [OF assms] node_of_def
          option.map_comp comp_def)
  have r: "filter (\<lambda>c. case cat_parent c of None \<Rightarrow> True | Some p \<Rightarrow> fillMap cs p = None) cs
         = filter (is_root cs) cs"
    by (rule filter_cong)
      (auto simp: is_root_def fillMap_eq [OF assms] findById_None_iff split: option.splits)
  show ?thesis
    unfolding buildCategoryTree_def fold_link [OF sub] h r by (simp add: roots_of_def)
qed

lemma buildCategoryTree_ctl_eq:
  assumes "distinct (ids cs)"
  shows "buildCategoryTree_ctl cs
           = (heap_of cs, map cat_id (filter (\<lambda>c. cat_parent c = None) cs))"
proof -
  have h: "(\<lambda>k. map_option
                 (\<lambda>nd. nd\<lparr>children := children nd @ map cat_id (findByParent k cs)\<rparr>)
                 (fillMap cs k)) = heap_of cs"
    by (auto simp: fun_eq_iff heap_of_def fillMap_eq [OF assms] node_of_def
          option.map_comp comp_def)
  show ?thesis
    unfolding buildCategoryTree_ctl_def fold_link_ctl h by simp
qed

section \<open>Facts about reading the forest\<close>

lemma those_map_Some: "\<forall>x\<in>set xs. f x = Some (g x) \<Longrightarrow> those (map f xs) = Some (map g xs)"
  by (induction xs) simp_all

lemma those_map_None: "x \<in> set xs \<Longrightarrow> f x = None \<Longrightarrow> those (map f xs) = None"
  by (induction xs) (auto split: option.splits)

lemma those_map_mono:
  "those (map f xs) = Some ys \<Longrightarrow> (\<forall>x\<in>set xs. \<forall>y. f x = Some y \<longrightarrow> g x = Some y) \<Longrightarrow>
     those (map g xs) = Some ys"
  by (induction xs arbitrary: ys) (auto split: option.splits)

lemma unfold_node_Suc:
  "unfold_node n h k = Some t \<Longrightarrow> unfold_node (Suc n) h k = Some t"
proof (induction n arbitrary: k t)
  case 0
  then show ?case by simp
next
  case (Suc n)
  from Suc.prems obtain nd ts where nd: "h k = Some nd"
    and ts: "those (map (unfold_node n h) (children nd)) = Some ts"
    and t: "t = Tree (node_id nd) (node_name nd) (node_status nd) ts"
    by (auto split: option.splits)
  from ts have "those (map (unfold_node (Suc n) h) (children nd)) = Some ts"
    by (rule those_map_mono) (use Suc.IH in blast)
  with nd t show ?case by (simp del: unfold_node.simps add: unfold_node.simps(2) [of "Suc n"])
qed

lemma unfold_node_mono:
  "unfold_node n h k = Some t \<Longrightarrow> n \<le> m \<Longrightarrow> unfold_node m h k = Some t"
  by (induction m) (auto simp: le_Suc_eq dest: unfold_node_Suc simp del: unfold_node.simps)

lemma forest_mono: "forest n b = Some ts \<Longrightarrow> n \<le> m \<Longrightarrow> forest m b = Some ts"
  unfolding forest_def
  by (cases b) (auto intro: those_map_mono unfold_node_mono simp del: unfold_node.simps)

lemma forest_unique:
  assumes "forest n b = Some ts"
  shows "forest m b = Some ts \<or> forest m b = None"
proof (cases "forest m b")
  case None
  then show ?thesis by simp
next
  case (Some ts')
  from forest_mono [OF assms, of "max n m"] forest_mono [OF Some, of "max n m"]
  have "ts' = ts" by simp
  with Some show ?thesis by simp
qed

lemma findByParent_subset: "set (findByParent p cs) \<subseteq> set cs"
  by (auto simp: findByParent_def)

lemma heap_of_member:
  "distinct (ids cs) \<Longrightarrow> c \<in> set cs \<Longrightarrow>
     heap_of cs (cat_id c) = Some (node_of c (map cat_id (findByParent (cat_id c) cs)))"
  by (simp add: heap_of_def findById_distinct)

lemma unfold_heap_of:
  assumes d: "distinct (ids cs)"
  shows "c \<in> set cs \<Longrightarrow>
     unfold_node (Suc n) (heap_of cs) (cat_id c)
       = (if within (Suc n) cs (cat_id c) then Some (subtree n cs c) else None)"
proof (induction n arbitrary: c)
  case 0
  then show ?case
    by (cases "findByParent (cat_id c) cs") (simp_all add: heap_of_member [OF d] node_of_def)
next
  case (Suc n)
  let ?kids = "findByParent (cat_id c) cs"
  have h: "heap_of cs (cat_id c) = Some (node_of c (map cat_id ?kids))"
    by (rule heap_of_member [OF d Suc.prems])
  have IH: "\<And>k. k \<in> set ?kids \<Longrightarrow> unfold_node (Suc n) (heap_of cs) (cat_id k)
       = (if within (Suc n) cs (cat_id k) then Some (subtree n cs k) else None)"
    using Suc.IH findByParent_subset by blast
  have step: "unfold_node (Suc (Suc n)) (heap_of cs) (cat_id c)
     = map_option (Tree (cat_id c) (cat_name c) (cat_status c))
         (those (map (\<lambda>k. unfold_node (Suc n) (heap_of cs) (cat_id k)) ?kids))"
    by (simp add: unfold_node.simps(2) [of "Suc n"] h node_of_def comp_def
          del: unfold_node.simps)
  show ?case
  proof (cases "within (Suc (Suc n)) cs (cat_id c)")
    case True
    then have "\<forall>k\<in>set ?kids. unfold_node (Suc n) (heap_of cs) (cat_id k)
                 = Some (subtree n cs k)"
      using IH by (simp add: list_all_iff del: unfold_node.simps within.simps(2)
                     add: within.simps(2) [of "Suc n"])
    then have "those (map (\<lambda>k. unfold_node (Suc n) (heap_of cs) (cat_id k)) ?kids)
                 = Some (map (subtree n cs) ?kids)"
      by (rule those_map_Some)
    with True step show ?thesis by (simp del: unfold_node.simps within.simps)
  next
    case False
    then obtain k where k: "k \<in> set ?kids" "\<not> within (Suc n) cs (cat_id k)"
      by (auto simp: list_all_iff within.simps(2) [of "Suc n"] simp del: within.simps(2))
    with IH have "unfold_node (Suc n) (heap_of cs) (cat_id k) = None" by simp
    with k(1) have "those (map (\<lambda>k. unfold_node (Suc n) (heap_of cs) (cat_id k)) ?kids) = None"
      by (rule those_map_None)
    with False step show ?thesis by (simp del: unfold_node.simps within.simps)
  qed
qed

lemma shown_id_member: "distinct (ids cs) \<Longrightarrow> c \<in> set cs \<Longrightarrow> shown_id cs (cat_id c) = shown c"
  by (simp add: shown_id_def findById_distinct)

lemma tree_nodes_subtree:
  assumes d: "distinct (ids cs)"
  shows "c \<in> set cs \<Longrightarrow>
     tree_nodes (subtree n cs c) = map (shown_id cs) (cat_id c # preorder n cs (cat_id c))"
proof (induction n arbitrary: c)
  case 0
  then show ?case by (simp add: shown_id_member [OF d] shown_def)
next
  case (Suc n)
  have "map (\<lambda>k. tree_nodes (subtree n cs k)) (findByParent (cat_id c) cs)
      = map (\<lambda>k. map (shown_id cs) (cat_id k # preorder n cs (cat_id k)))
          (findByParent (cat_id c) cs)"
    using Suc.IH findByParent_subset by (intro map_cong refl) blast
  then have "concat (map (\<lambda>k. tree_nodes (subtree n cs k)) (findByParent (cat_id c) cs))
      = map (shown_id cs) (preorder (Suc n) cs (cat_id c))"
    by (simp only: preorder.simps map_concat map_map comp_def)
  with Suc.prems show ?case by (simp add: shown_id_member [OF d] shown_def comp_def)
qed

section \<open>Facts about the roots and the partition\<close>

lemma child_in_ids: "(p, k) \<in> child_rel cs \<Longrightarrow> k \<in> set (ids cs)"
  by (auto simp: child_rel_iff ids_def)

lemma descendants_in_ids: "d \<in> descendants cs p \<Longrightarrow> d \<in> set (ids cs)"
  unfolding descendants_def by (auto dest!: tranclD2 intro: child_in_ids)

lemma roots_in_ids: "set (roots_of cs) \<subseteq> set (ids cs)"
  by (auto simp: roots_of_def ids_def)

lemma distinct_roots: "distinct (ids cs) \<Longrightarrow> distinct (roots_of cs)"
  unfolding roots_of_def ids_def by (rule distinct_map_filter)

lemma root_no_parent:
  assumes "distinct (ids cs)" and "k \<in> set (roots_of cs)"
  shows "(y, k) \<in> child_rel cs \<Longrightarrow> y \<notin> set (ids cs)"
proof -
  assume "(y, k) \<in> child_rel cs"
  then obtain c where c: "c \<in> set cs" "cat_parent c = Some y" "cat_id c = k"
    by (auto simp: child_rel_iff)
  from assms(2) obtain c' where c': "c' \<in> set cs" "is_root cs c'" "cat_id c' = k"
    by (auto simp: roots_of_def)
  from assms(1) have "inj_on cat_id (set cs)" by (simp add: ids_def distinct_map)
  with c c' have "c = c'" by (auto dest: inj_onD)
  with c c' show "y \<notin> set (ids cs)" by (simp add: is_root_def)
qed

lemma roots_unrelated:
  assumes "distinct (ids cs)" and "k1 \<in> set (roots_of cs)" and "k2 \<in> set (roots_of cs)"
    and "k1 \<noteq> k2"
  shows "(k1, k2) \<notin> (child_rel cs)\<^sup>*"
proof
  assume "(k1, k2) \<in> (child_rel cs)\<^sup>*"
  with assms(4) obtain y where y: "(k1, y) \<in> (child_rel cs)\<^sup>*" "(y, k2) \<in> child_rel cs"
    by (metis rtranclE)
  from root_no_parent [OF assms(1,3) y(2)] have ny: "y \<notin> set (ids cs)" .
  from y(1) have "y = k1 \<or> (k1, y) \<in> (child_rel cs)\<^sup>+" by (auto simp: rtrancl_eq_or_trancl)
  then have "y \<in> set (ids cs)"
  proof
    assume "y = k1"
    with assms(2) roots_in_ids show ?thesis by blast
  next
    assume "(k1, y) \<in> (child_rel cs)\<^sup>+"
    then have "y \<in> descendants cs k1" by (simp add: descendants_def)
    then show ?thesis by (rule descendants_in_ids)
  qed
  with ny show False by simp
qed

lemma every_id_under_a_root:
  assumes "distinct (ids cs)" and "acyclic (child_rel cs)"
  shows "k \<in> set (ids cs) \<Longrightarrow> \<exists>r\<in>set (roots_of cs). (r, k) \<in> (child_rel cs)\<^sup>*"
proof -
  have "finite (child_rel cs)" by (simp add: child_rel_def)
  then have "wf (child_rel cs)" using assms(2) by (rule finite_acyclic_wf)
  then show "k \<in> set (ids cs) \<Longrightarrow> \<exists>r\<in>set (roots_of cs). (r, k) \<in> (child_rel cs)\<^sup>*"
  proof (induction k rule: wf_induct_rule)
    case (less k)
    from less.prems obtain c where c: "c \<in> set cs" "cat_id c = k" by (auto simp: ids_def)
    show ?case
    proof (cases "is_root cs c")
      case True
      with c have "k \<in> set (roots_of cs)" by (auto simp: roots_of_def)
      then show ?thesis by blast
    next
      case False
      then obtain p where p: "cat_parent c = Some p" "p \<in> set (ids cs)"
        by (auto simp: is_root_def split: option.splits)
      with c have e: "(p, k) \<in> child_rel cs" by (auto intro: child_relI)
      from less.IH [OF e p(2)] obtain r where "r \<in> set (roots_of cs)"
        "(r, p) \<in> (child_rel cs)\<^sup>*" by blast
      with e show ?thesis by (meson rtrancl.rtrancl_into_rtrancl)
    qed
  qed
qed

lemma forest_ids_set:
  assumes "distinct (ids cs)" and "acyclic (child_rel cs)"
    and w: "\<And>k. within n cs k"
  shows "set (concat (map (\<lambda>k. k # preorder n cs k) (roots_of cs))) = set (ids cs)"
proof -
  have eq: "set (concat (map (\<lambda>k. k # preorder n cs k) (roots_of cs)))
      = (\<Union>r\<in>set (roots_of cs). insert r (descendants cs r))"
    by (simp add: set_preorder [OF w])
  show ?thesis
  proof (rule set_eqI)
    fix k
    show "k \<in> set (concat (map (\<lambda>k. k # preorder n cs k) (roots_of cs))) \<longleftrightarrow> k \<in> set (ids cs)"
    proof
      assume "k \<in> set (concat (map (\<lambda>k. k # preorder n cs k) (roots_of cs)))"
      then show "k \<in> set (ids cs)"
        unfolding eq using roots_in_ids [of cs] descendants_in_ids [of k cs] by blast
    next
      assume "k \<in> set (ids cs)"
      from every_id_under_a_root [OF assms(1,2) this]
      obtain r where r: "r \<in> set (roots_of cs)" "(r, k) \<in> (child_rel cs)\<^sup>*" by blast
      then have "k \<in> insert r (descendants cs r)"
        by (auto simp: descendants_def rtrancl_eq_or_trancl)
      with r(1) show "k \<in> set (concat (map (\<lambda>k. k # preorder n cs k) (roots_of cs)))"
        unfolding eq by blast
    qed
  qed
qed

lemma forest_ids_distinct:
  assumes "distinct (ids cs)" and "acyclic (child_rel cs)"
  shows "distinct (concat (map (\<lambda>k. k # preorder n cs k) (roots_of cs)))"
proof (rule distinct_concat_heads [where g = "\<lambda>k. k"])
  show "distinct (map (\<lambda>k. k) (roots_of cs))"
    using distinct_roots [OF assms(1)] by simp
next
  fix k
  show "k \<notin> set (preorder n cs k) \<and> distinct (preorder n cs k)"
    using set_preorder_subset [of n cs k] not_self_descendant [OF assms(2)]
      distinct_preorder [OF assms] by blast
next
  fix k k' assume r: "k \<in> set (roots_of cs)" "k' \<in> set (roots_of cs)" "k \<noteq> k'"
  have "insert k (descendants cs k) \<inter> insert k' (descendants cs k') = {}"
    using roots_unrelated [OF assms(1) r] roots_unrelated [OF assms(1) r(2,1)] r(3)
    by (intro unrelated_disjoint [OF assms(1)]) auto
  then show "insert k (set (preorder n cs k)) \<inter> insert k' (set (preorder n cs k')) = {}"
    using set_preorder_subset [of n cs k] set_preorder_subset [of n cs k'] by blast
qed

lemma forest_heap_of:
  assumes d: "distinct (ids cs)" and w: "\<And>k. within (Suc n) cs k"
  shows "forest (Suc n) (heap_of cs, roots_of cs)
           = Some (map (subtree n cs) (filter (is_root cs) cs))"
proof -
  have "\<forall>c\<in>set (filter (is_root cs) cs).
          unfold_node (Suc n) (heap_of cs) (cat_id c) = Some (subtree n cs c)"
    using unfold_heap_of [OF d, of _ n] w by (simp del: unfold_node.simps within.simps)
  then have "those (map (\<lambda>c. unfold_node (Suc n) (heap_of cs) (cat_id c))
                      (filter (is_root cs) cs))
               = Some (map (subtree n cs) (filter (is_root cs) cs))"
    by (rule those_map_Some)
  then show ?thesis
    by (simp add: forest_def roots_of_def comp_def del: unfold_node.simps)
qed

lemma forest_nodes_heap_of:
  assumes d: "distinct (ids cs)"
  shows "forest_nodes (map (subtree n cs) (filter (is_root cs) cs))
           = map (shown_id cs) (concat (map (\<lambda>k. k # preorder n cs k) (roots_of cs)))"
proof -
  have "map (\<lambda>c. tree_nodes (subtree n cs c)) (filter (is_root cs) cs)
      = map (\<lambda>c. map (shown_id cs) (cat_id c # preorder n cs (cat_id c)))
          (filter (is_root cs) cs)"
    using tree_nodes_subtree [OF d] by (intro map_cong refl) simp
  then show ?thesis
    by (simp only: forest_nodes_def roots_of_def map_concat map_map comp_def)
qed

lemma shown_ids: "distinct (ids cs) \<Longrightarrow> map (shown_id cs) (ids cs) = map shown cs"
  by (simp add: ids_def shown_id_member)

lemma no_dangling_roots:
  assumes "\<forall>c\<in>set cs. \<forall>p. cat_parent c = Some p \<longrightarrow> p \<in> set (ids cs)"
  shows "map cat_id (filter (\<lambda>c. cat_parent c = None) cs) = roots_of cs"
proof -
  have "filter (\<lambda>c. cat_parent c = None) cs = filter (is_root cs) cs"
    using assms by (intro filter_cong refl) (auto simp: is_root_def split: option.splits)
  then show ?thesis by (simp add: roots_of_def)
qed

lemma buildCategoryTree_dangling_root:
  assumes "distinct (ids cs)" and "c \<in> set cs" and "cat_parent c = Some p"
    and "p \<notin> set (ids cs)"
  shows "cat_id c \<in> set (snd (buildCategoryTree cs))"
  using assms by (auto simp: buildCategoryTree_eq roots_of_def is_root_def)

section \<open>The caller of the cascade\<close>

lemma cascade_returns_mark:
  assumes "distinct (ids s)" and "acyclic (child_rel s)"
  shows "updateDescendantStatus (Suc (length s)) i st s = Some (mark (descendants s i) st s)"
proof -
  have "within (Suc (length s)) s i" by (rule acyclic_within [OF assms(2)])
  then obtain x where x: "updateDescendantStatus (Suc (length s)) i st s = Some x"
    using cascade_terminates_iff [of "Suc (length s)" i st s] by blast
  from cascade_mark [OF assms(1) x] x show ?thesis by simp
qed

lemma updateCategory_deactivates:
  assumes "distinct (ids s)" and "acyclic (child_rel s)"
    and "isValid i" and "findById i s = Some c"
    and "body_status b = Some ''inactive''" and "cat_status c \<noteq> ''inactive''"
    and "body_name b = None" and "cat_name c \<noteq> []"
  shows "updateCategory isValid (Suc (length s)) i b s =
           Some (Some \<lparr>code = 200, message = ''Category updated successfully''\<rparr>,
                 updateOne i (\<lambda>d. d\<lparr>cat_name := cat_name c, cat_status := ''inactive''\<rparr>)
                   (mark (descendants s i) ''inactive'' s))"
  using assms(3-8) cascade_returns_mark [OF assms(1,2), of i "''inactive''"]
  by (simp add: updateCategory_def Let_def truthy_def validate_def send_def
        del: updateDescendantStatus.simps)

section \<open>Results\<close>

text \<open>
  C8. A create request whose \<open>parent\<close> is a well-formed id that no stored category has
  is answered 400 "Parent category not found", and the handler goes on to the save: the
  new category, with the dangling parent reference, is stored exactly when it passes the
  schema (a name that is not empty once trimmed, a status in the enum, "active" when the
  request gives none) and its id is new. Otherwise the save throws and the store is as
  it was; the client has its 400 either way.
\<close>

theorem createCategory_dangling_parent:
  assumes "body_parent b = Some p" and "p \<noteq> []" and "isValid p"
    and "findById p s = None"
  shows "createCategory isValid newId b s =
           (Some \<lparr>code = 400, message = ''Parent category not found''\<rparr>,
            (let category =
                   \<lparr>cat_id = newId,
                    cat_name = (case body_name b of None \<Rightarrow> [] | Some n \<Rightarrow> trim n),
                    cat_parent = Some p,
                    cat_status = (if truthy (body_status b) then the (body_status b)
                                  else ''active'')\<rparr>
             in if validate category \<and> newId \<notin> set (ids s) then s @ [category] else s))"
  using assms
  by (simp add: createCategory_def Let_def truthy_def send_def)

theorem createCategory_dangling_parent_witness:
  "findById ''zz'' shop = None
   \<and> createCategory (\<lambda>i. length i = 2) ''n1''
        \<lparr>body_name = Some '' Tablets '', body_parent = Some ''zz'', body_status = None\<rparr> shop
      = (Some \<lparr>code = 400, message = ''Parent category not found''\<rparr>,
         shop @ [\<lparr>cat_id = ''n1'', cat_name = ''Tablets'', cat_parent = Some ''zz'',
                  cat_status = ''active''\<rparr>])"
proof -
  have f: "findById ''zz'' shop = None" by code_simp
  have n: "''n1'' \<notin> set (ids shop)" by code_simp
  have t: "trim '' Tablets '' = ''Tablets''" by code_simp
  from createCategory_dangling_parent
    [of "\<lparr>body_name = Some '' Tablets '', body_parent = Some ''zz'', body_status = None\<rparr>"
        "''zz''" "\<lambda>i. length i = 2" shop "''n1''"] f n t
  show ?thesis by (simp add: Let_def truthy_def validate_def)
qed

text \<open>
  C8 as stated fails: with the same dangling parent, a request that gives no name, one
  whose name is a no-break space, and one whose status is outside the enum are answered
  400 and nothing is stored.
\<close>

theorem createCategory_dangling_parent_counterexample:
  "createCategory (\<lambda>i. length i = 2) ''n1''
        \<lparr>body_name = None, body_parent = Some ''zz'', body_status = None\<rparr> shop
      = (Some \<lparr>code = 400, message = ''Parent category not found''\<rparr>, shop)
   \<and> createCategory (\<lambda>i. length i = 2) ''n1''
        \<lparr>body_name = Some [CHR 0xA0], body_parent = Some ''zz'', body_status = None\<rparr> shop
      = (Some \<lparr>code = 400, message = ''Parent category not found''\<rparr>, shop)
   \<and> createCategory (\<lambda>i. length i = 2) ''n1''
        \<lparr>body_name = Some ''Tablets'', body_parent = Some ''zz'',
         body_status = Some ''archived''\<rparr> shop
      = (Some \<lparr>code = 400, message = ''Parent category not found''\<rparr>, shop)"
  by code_simp

text \<open>
  C4. On a store with distinct ids and an acyclic parent graph, deleting a stored
  category answers 200 and leaves a store in which the category is gone, no category
  has it as parent, every other category is still stored under its id, the former direct
  children with the deleted category's former parent (none if it was a root) and all
  the others unchanged.
\<close>

theorem deleteCategory_reparents:
  assumes "distinct (ids s)" and "acyclic (child_rel s)"
    and "isValid i" and "findById i s = Some cat"
  shows "\<exists>s'. deleteCategory isValid i s =
           (Some \<lparr>code = 200,
                  message = ''Category deleted successfully and subcategories reassigned''\<rparr>, s')
         \<and> findById i s' = None
         \<and> (\<forall>c\<in>set s'. cat_parent c \<noteq> Some i)
         \<and> (\<forall>c\<in>set s. cat_id c \<noteq> i \<longrightarrow>
               findById (cat_id c) s' =
                 Some (if cat_parent c = Some i then c\<lparr>cat_parent := cat_parent cat\<rparr> else c))
         \<and> ids s' = filter (\<lambda>j. j \<noteq> i) (ids s)"
proof -
  let ?f = "\<lambda>c. if cat_parent c = Some i then c\<lparr>cat_parent := cat_parent cat\<rparr> else c"
  let ?s' = "filter (\<lambda>c. cat_id c \<noteq> i) (map ?f s)"
  have idf: "\<And>c. cat_id (?f c) = cat_id c" by simp
  have cat: "cat \<in> set s" "cat_id cat = i"
    using findById_SomeD [OF assms(4)] by simp_all
  have noself: "cat_parent cat \<noteq> Some i"
  proof
    assume "cat_parent cat = Some i"
    then have "(i, i) \<in> child_rel s" using child_relI [OF cat(1)] cat(2) by simp
    then show False using assms(2) by (auto simp: acyclic_def)
  qed
  have ids': "ids ?s' = filter (\<lambda>j. j \<noteq> i) (ids s)"
    by (induction s) (simp_all add: ids_def)
  have d': "distinct (ids ?s')" using assms(1) ids' by simp
  have 1: "findById i ?s' = None"
    by (simp add: findById_None_iff ids')
  have 2: "\<forall>c\<in>set ?s'. cat_parent c \<noteq> Some i"
    using noself by auto
  have 3: "\<forall>c\<in>set s. cat_id c \<noteq> i \<longrightarrow> findById (cat_id c) ?s' = Some (?f c)"
  proof (intro ballI impI)
    fix c assume c: "c \<in> set s" "cat_id c \<noteq> i"
    then have "?f c \<in> set ?s'" by auto
    from findById_distinct [OF d' this] show "findById (cat_id c) ?s' = Some (?f c)"
      by (simp only: idf)
  qed
  show ?thesis
    using deleteCategory_store [of s isValid i cat] assms(1,3,4) 1 2 3 ids' by blast
qed

theorem deleteCategory_reparents_witness:
  "deleteCategory (\<lambda>i. True) ''b''
     [\<lparr>cat_id = ''a'', cat_name = ''A'', cat_parent = None, cat_status = ''active''\<rparr>,
      \<lparr>cat_id = ''b'', cat_name = ''B'', cat_parent = Some ''a'', cat_status = ''active''\<rparr>,
      \<lparr>cat_id = ''c'', cat_name = ''C'', cat_parent = Some ''b'', cat_status = ''active''\<rparr>,
      \<lparr>cat_id = ''d'', cat_name = ''D'', cat_parent = Some ''c'', cat_status = ''active''\<rparr>]
   = (Some \<lparr>code = 200,
            message = ''Category deleted successfully and subcategories reassigned''\<rparr>,
     [\<lparr>cat_id = ''a'', cat_name = ''A'', cat_parent = None, cat_status = ''active''\<rparr>,
      \<lparr>cat_id = ''c'', cat_name = ''C'', cat_parent = Some ''a'', cat_status = ''active''\<rparr>,
      \<lparr>cat_id = ''d'', cat_name = ''D'', cat_parent = Some ''c'', cat_status = ''active''\<rparr>])"
proof -
  let ?s = "[\<lparr>cat_id = ''a'', cat_name = ''A'', cat_parent = None, cat_status = ''active''\<rparr>,
      \<lparr>cat_id = ''b'', cat_name = ''B'', cat_parent = Some ''a'', cat_status = ''active''\<rparr>,
      \<lparr>cat_id = ''c'', cat_name = ''C'', cat_parent = Some ''b'', cat_status = ''active''\<rparr>,
      \<lparr>cat_id = ''d'', cat_name = ''D'', cat_parent = Some ''c'', cat_status = ''active''\<rparr>]"
  have 1: "distinct (ids ?s)" by (simp add: ids_def)
  have 2: "acyclic (child_rel ?s)" by code_simp
  have 3: "findById ''b'' ?s =
    Some \<lparr>cat_id = ''b'', cat_name = ''B'', cat_parent = Some ''a'', cat_status = ''active''\<rparr>"
    by (simp add: findById_def)
  from deleteCategory_reparents [of ?s "\<lambda>i. True" "''b''", OF 1 2 _ 3]
  obtain s' where s': "deleteCategory (\<lambda>i. True) ''b'' ?s =
           (Some \<lparr>code = 200,
                  message = ''Category deleted successfully and subcategories reassigned''\<rparr>, s')"
     and ids': "ids s' = filter (\<lambda>j. j \<noteq> ''b'') (ids ?s)"
     and f: "\<forall>c\<in>set ?s. cat_id c \<noteq> ''b'' \<longrightarrow>
               findById (cat_id c) s' =
                 Some (if cat_parent c = Some ''b'' then c\<lparr>cat_parent := Some ''a''\<rparr> else c)"
    by auto
  have "deleteCategory (\<lambda>i. True) ''b'' ?s = (Some \<lparr>code = 200,
            message = ''Category deleted successfully and subcategories reassigned''\<rparr>,
     [\<lparr>cat_id = ''a'', cat_name = ''A'', cat_parent = None, cat_status = ''active''\<rparr>,
      \<lparr>cat_id = ''c'', cat_name = ''C'', cat_parent = Some ''a'', cat_status = ''active''\<rparr>,
      \<lparr>cat_id = ''d'', cat_name = ''D'', cat_parent = Some ''c'', cat_status = ''active''\<rparr>])"
    by (simp add: deleteCategory_def findById_def findByParent_def send_def)
  with s' show ?thesis by simp
qed

text \<open>
  C9. The cascade runs exactly when the id is well-formed, the request sets the status
  to "inactive" and the stored category has another status: then \<open>updateCategory\<close>
  returns if and only if the cascade does (never on fuel zero). In every other case (a
  status "active", "inactive" on a category that is inactive already, and also no status,
  an empty one, one outside the enum, an id that is malformed or not stored) the handler
  answers the same whatever the fuel, zero too, and the documents of every other id, the
  descendants among them, are left as they were.
\<close>

theorem updateCategory_cascade_iff:
  "(isValid i \<and> body_status b = Some ''inactive''
      \<and> (\<exists>c. findById i s = Some c \<and> cat_status c \<noteq> ''inactive'')
     \<longrightarrow> updateCategory isValid 0 i b s = None
         \<and> (\<forall>fuel. updateCategory isValid fuel i b s = None
                     \<longleftrightarrow> updateDescendantStatus fuel i ''inactive'' s = None))
   \<and> (\<not> (isValid i \<and> body_status b = Some ''inactive''
            \<and> (\<exists>c. findById i s = Some c \<and> cat_status c \<noteq> ''inactive''))
     \<longrightarrow> (\<exists>r s'. (\<forall>fuel. updateCategory isValid fuel i b s = Some (r, s'))
            \<and> filter (\<lambda>c. cat_id c \<noteq> i) s' = filter (\<lambda>c. cat_id c \<noteq> i) s
            \<and> ids s' = ids s))"
proof (intro conjI impI)
  assume a: "isValid i \<and> body_status b = Some ''inactive''
      \<and> (\<exists>c. findById i s = Some c \<and> cat_status c \<noteq> ''inactive'')"
  then obtain c where c: "findById i s = Some c" "cat_status c \<noteq> ''inactive''" by blast
  have run: "updateCategory isValid fuel i b s = None
               \<longleftrightarrow> updateDescendantStatus fuel i ''inactive'' s = None" for fuel
    using a c
    by (simp add: updateCategory_def Let_def truthy_def split: option.splits
          del: updateDescendantStatus.simps)
  from run [of 0] show "updateCategory isValid 0 i b s = None" by simp
  from run show "\<forall>fuel. updateCategory isValid fuel i b s = None
                     \<longleftrightarrow> updateDescendantStatus fuel i ''inactive'' s = None"
    by blast
next
  assume n: "\<not> (isValid i \<and> body_status b = Some ''inactive''
            \<and> (\<exists>c. findById i s = Some c \<and> cat_status c \<noteq> ''inactive''))"
  show "\<exists>r s'. (\<forall>fuel. updateCategory isValid fuel i b s = Some (r, s'))
            \<and> filter (\<lambda>c. cat_id c \<noteq> i) s' = filter (\<lambda>c. cat_id c \<noteq> i) s
            \<and> ids s' = ids s"
  proof (cases "isValid i")
    case False
    then show ?thesis by (simp add: updateCategory_def Let_def)
  next
    case True
    show ?thesis
    proof (cases "findById i s")
      case None
      with True show ?thesis by (simp add: updateCategory_def Let_def)
    next
      case (Some c)
      from n True Some consider "body_status b = None" | "body_status b = Some []"
        | x where "body_status b = Some x" "x \<noteq> []" "x \<noteq> ''inactive''"
        | "body_status b = Some ''inactive''" "cat_status c = ''inactive''"
        by (cases "body_status b") auto
      then show ?thesis
      proof cases
        case 1
        with True Some show ?thesis
          by (simp add: updateCategory_def Let_def truthy_def filter_updateOne_other
                ids_updateOne)
      next
        case 2
        with True Some show ?thesis
          by (simp add: updateCategory_def Let_def truthy_def filter_updateOne_other
                ids_updateOne)
      next
        case 3
        with True Some show ?thesis
          by (simp add: updateCategory_def Let_def truthy_def filter_updateOne_other
                ids_updateOne)
      next
        case 4
        with True Some show ?thesis
          by (simp add: updateCategory_def Let_def truthy_def filter_updateOne_other
                ids_updateOne)
      qed
    qed
  qed
qed

theorem updateCategory_cascade_iff_witness:
  "updateCategory (\<lambda>i. True) 0 ''c1''
     \<lparr>body_name = Some ''PCs'', body_parent = None, body_status = None\<rparr> shop
   = Some (Some \<lparr>code = 200, message = ''Category updated successfully''\<rparr>,
       [\<lparr>cat_id = ''e1'', cat_name = ''Electronics'', cat_parent = None,
          cat_status = ''active''\<rparr>,
        \<lparr>cat_id = ''c1'', cat_name = ''PCs'', cat_parent = Some ''e1'',
          cat_status = ''active''\<rparr>,
        \<lparr>cat_id = ''l1'', cat_name = ''Laptops'', cat_parent = Some ''c1'',
          cat_status = ''active''\<rparr>,
        \<lparr>cat_id = ''d1'', cat_name = ''Desktops'', cat_parent = Some ''c1'',
          cat_status = ''active''\<rparr>,
        \<lparr>cat_id = ''b1'', cat_name = ''Books'', cat_parent = None, cat_status = ''active''\<rparr>])
   \<and> updateCategory (\<lambda>i. True) 0 ''c1''
       \<lparr>body_name = None, body_parent = None, body_status = Some ''inactive''\<rparr> shop = None
   \<and> updateCategory (\<lambda>i. True) 9 ''c1''
       \<lparr>body_name = Some ''PCs'', body_parent = None, body_status = None\<rparr> shop
     = updateCategory (\<lambda>i. True) 0 ''c1''
       \<lparr>body_name = Some ''PCs'', body_parent = None, body_status = None\<rparr> shop"
proof -
  let ?rename = "\<lparr>body_name = Some ''PCs'', body_parent = None, body_status = None\<rparr>"
  let ?off = "\<lparr>body_name = None, body_parent = None, body_status = Some ''inactive''\<rparr>"
  have c: "updateCategory (\<lambda>i. True) 0 ''c1'' ?rename shop
   = Some (Some \<lparr>code = 200, message = ''Category updated successfully''\<rparr>,
       [\<lparr>cat_id = ''e1'', cat_name = ''Electronics'', cat_parent = None,
          cat_status = ''active''\<rparr>,
        \<lparr>cat_id = ''c1'', cat_name = ''PCs'', cat_parent = Some ''e1'',
          cat_status = ''active''\<rparr>,
        \<lparr>cat_id = ''l1'', cat_name = ''Laptops'', cat_parent = Some ''c1'',
          cat_status = ''active''\<rparr>,
        \<lparr>cat_id = ''d1'', cat_name = ''Desktops'', cat_parent = Some ''c1'',
          cat_status = ''active''\<rparr>,
        \<lparr>cat_id = ''b1'', cat_name = ''Books'', cat_parent = None, cat_status = ''active''\<rparr>])"
    by code_simp
  have f: "findById ''c1'' shop
     = Some \<lparr>cat_id = ''c1'', cat_name = ''Computers'', cat_parent = Some ''e1'',
             cat_status = ''active''\<rparr>"
    by code_simp
  from updateCategory_cascade_iff [of "\<lambda>i. True" "''c1''" ?off shop] f
  have off: "updateCategory (\<lambda>i. True) 0 ''c1'' ?off shop = None" by simp
  from updateCategory_cascade_iff [of "\<lambda>i. True" "''c1''" ?rename shop]
  obtain r s' where "\<forall>fuel. updateCategory (\<lambda>i. True) fuel ''c1'' ?rename shop = Some (r, s')"
    by auto
  then have "updateCategory (\<lambda>i. True) 9 ''c1'' ?rename shop
               = updateCategory (\<lambda>i. True) 0 ''c1'' ?rename shop"
    by simp
  with c off show ?thesis by simp
qed

lemma findById_mark:
  "findById j (mark D st s)
     = map_option (\<lambda>c. if cat_id c \<in> D then c\<lparr>cat_status := st\<rparr> else c) (findById j s)"
  unfolding findById_def mark_def by (induction s) auto

lemma within_child:
  "within n cs p \<Longrightarrow> (p, q) \<in> child_rel cs \<Longrightarrow> \<exists>m<n. within m cs q"
proof (cases n)
  case 0
  assume "within n cs p" with 0 show ?thesis by simp
next
  case (Suc n')
  assume w: "within n cs p" and e: "(p, q) \<in> child_rel cs"
  from e have "q \<in> cat_id ` set (findByParent p cs)" unfolding child_ids by simp
  with w Suc have "within n' cs q" by (auto simp: list_all_iff)
  with Suc show ?thesis by blast
qed

lemma within_descendant:
  "(p, q) \<in> (child_rel cs)\<^sup>+ \<Longrightarrow> within n cs p \<Longrightarrow> \<exists>m<n. within m cs q"
proof (induction rule: trancl_induct)
  case (base y)
  then show ?case by (blast dest: within_child)
next
  case (step y z)
  then obtain m where "m < n" "within m cs y" by blast
  with step.hyps(2) within_child [of m cs y z] show ?case
    by (meson less_trans)
qed

lemma cycle_not_within:
  assumes "(x, x) \<in> (child_rel cs)\<^sup>+"
  shows "\<not> within n cs x"
proof (induction n rule: less_induct)
  case (less n)
  show ?case
  proof
    assume "within n cs x"
    from within_descendant [OF assms this] less show False by blast
  qed
qed

lemma total_iff_acyclic: "acyclic (child_rel cs) \<longleftrightarrow> (\<forall>i. \<exists>n. within n cs i)"
proof
  assume "acyclic (child_rel cs)"
  then show "\<forall>i. \<exists>n. within n cs i" by (blast intro: acyclic_within)
next
  assume a: "\<forall>i. \<exists>n. within n cs i"
  show "acyclic (child_rel cs)"
    unfolding acyclic_def using a cycle_not_within by blast
qed

text \<open>
  C6. The descendant-id listing and the store-backed status cascade return on every id
  exactly when the parent graph is acyclic; nothing in them guards against a cycle. On
  an acyclic graph the recursion below an id \<open>i\<close> reaches exactly the depth \<open>d\<close> of the
  subtree below \<open>i\<close> (the length of its longest chain): a call returns if and only if it
  may nest deeper than \<open>d\<close>.
\<close>

theorem recursions_total_iff_acyclic:
  "(acyclic (child_rel cs) \<longleftrightarrow> (\<forall>i. \<exists>n. getAllDescendantIds n i cs \<noteq> None))
   \<and> (acyclic (child_rel cs) \<longleftrightarrow> (\<forall>i. \<exists>n. updateDescendantStatus n i st cs \<noteq> None))
   \<and> (acyclic (child_rel cs) \<longrightarrow>
        (\<forall>i. \<exists>d\<le>length cs.
           (\<exists>path. chain cs i path \<and> length path = d)
           \<and> (\<forall>path. chain cs i path \<longrightarrow> length path \<le> d)
           \<and> (\<forall>n. getAllDescendantIds n i cs \<noteq> None \<longleftrightarrow> d < n)
           \<and> (\<forall>n. updateDescendantStatus n i st cs \<noteq> None \<longleftrightarrow> d < n)))"
proof -
  have g: "\<And>n i. getAllDescendantIds n i cs \<noteq> None \<longleftrightarrow> within n cs i"
    by (simp add: getAllDescendantIds_eq)
  have u: "\<And>n i. updateDescendantStatus n i st cs \<noteq> None \<longleftrightarrow> within n cs i"
    by (rule cascade_terminates_iff)
  show ?thesis
    unfolding g u using total_iff_acyclic [of cs] depth_exists [of cs] by blast
qed

text \<open>
  C3. On a store with distinct ids and an acyclic parent graph the status cascade on an
  id returns, with the same store whatever the fuel that suffices; in that store every
  transitive descendant of the id has the given status, the ids and the parent graph
  are as before, and the document of the id itself is as it was: its status is not
  written by the routine. The caller writes it: \<open>updateCategory\<close> sets the status on the
  document it has read and saves it after the cascade (\<open>updateCategory_deactivates\<close>).
\<close>

theorem cascade_reaches_descendants:
  assumes "distinct (ids s)" and "acyclic (child_rel s)"
  shows "\<exists>s'. updateDescendantStatus (Suc (length s)) i st s = Some s'
           \<and> (\<forall>n. updateDescendantStatus n i st s = Some s'
                    \<or> updateDescendantStatus n i st s = None)
           \<and> ids s' = ids s \<and> child_rel s' = child_rel s
           \<and> (\<forall>c\<in>set s'. cat_id c \<in> descendants s i \<longrightarrow> cat_status c = st)
           \<and> findById i s' = findById i s"
proof -
  let ?s' = "mark (descendants s i) st s"
  have ret: "\<And>n x. updateDescendantStatus n i st s = Some x \<Longrightarrow> x = ?s'"
    by (rule cascade_mark [OF assms(1)])
  have "within (Suc (length s)) s i" by (rule acyclic_within [OF assms(2)])
  then obtain x where "updateDescendantStatus (Suc (length s)) i st s = Some x"
    using cascade_terminates_iff [of "Suc (length s)" i st s] by blast
  with ret have 1: "updateDescendantStatus (Suc (length s)) i st s = Some ?s'" by blast
  have 2: "\<forall>n. updateDescendantStatus n i st s = Some ?s'
               \<or> updateDescendantStatus n i st s = None"
    using ret by (metis option.exhaust)
  have 3: "ids ?s' = ids s" by (rule ids_mark)
  have 4: "child_rel ?s' = child_rel s" by (rule child_rel_skeleton [OF skeleton_mark])
  have 5: "\<forall>c\<in>set ?s'. cat_id c \<in> descendants s i \<longrightarrow> cat_status c = st"
    by (auto simp: mark_def)
  have "i \<notin> descendants s i" by (rule not_self_descendant [OF assms(2)])
  then have 6: "findById i ?s' = findById i s"
    unfolding findById_mark by (cases "findById i s") (auto dest: findById_SomeD)
  from 1 2 3 4 5 6 show ?thesis by blast
qed

text \<open>
  C5. On a store with distinct ids and an acyclic parent graph the status cascade on an
  id returns, and every document whose id is not a transitive descendant of that id
  (its ancestors, its siblings and their subtrees, unrelated roots, the id itself) is
  stored unchanged, status and all other fields.
\<close>

theorem cascade_frame:
  assumes "distinct (ids s)" and "acyclic (child_rel s)"
  shows "\<exists>s'. updateDescendantStatus (Suc (length s)) i st s = Some s'
           \<and> (\<forall>n. updateDescendantStatus n i st s = Some s'
                    \<or> updateDescendantStatus n i st s = None)
           \<and> ids s' = ids s
           \<and> (\<forall>c\<in>set s. cat_id c \<notin> descendants s i \<longrightarrow> findById (cat_id c) s' = Some c)"
proof -
  let ?s' = "mark (descendants s i) st s"
  have ret: "\<And>n x. updateDescendantStatus n i st s = Some x \<Longrightarrow> x = ?s'"
    by (rule cascade_mark [OF assms(1)])
  have "within (Suc (length s)) s i" by (rule acyclic_within [OF assms(2)])
  then obtain x where "updateDescendantStatus (Suc (length s)) i st s = Some x"
    using cascade_terminates_iff [of "Suc (length s)" i st s] by blast
  with ret have 1: "updateDescendantStatus (Suc (length s)) i st s = Some ?s'" by blast
  have 2: "\<forall>n. updateDescendantStatus n i st s = Some ?s'
               \<or> updateDescendantStatus n i st s = None"
    using ret by (metis option.exhaust)
  have 3: "ids ?s' = ids s" by (rule ids_mark)
  have 4: "\<forall>c\<in>set s. cat_id c \<notin> descendants s i \<longrightarrow> findById (cat_id c) ?s' = Some c"
    unfolding findById_mark by (simp add: findById_distinct [OF assms(1)])
  from 1 2 3 4 show ?thesis by blast
qed

text \<open>
  C7. On an acyclic parent graph the listing of an id returns, with the same list
  whatever the fuel that suffices. The list holds exactly the transitive descendants, and
  it is made of one block per direct child, in the order of the child records in the
  input list: the child's id, followed at once by the listing of that child.
\<close>

theorem listing_is_preorder:
  assumes "acyclic (child_rel cs)"
  shows "\<exists>ds dss. getAllDescendantIds (Suc (Suc (length cs))) i cs = Some ds
           \<and> (\<forall>n. getAllDescendantIds n i cs = Some ds \<or> getAllDescendantIds n i cs = None)
           \<and> set ds = descendants cs i
           \<and> map (\<lambda>c. getAllDescendantIds (Suc (length cs)) (cat_id c) cs) (findByParent i cs)
               = map Some dss
           \<and> ds = concat (map2 (\<lambda>c d. cat_id c # d) (findByParent i cs) dss)"
proof -
  let ?n = "Suc (length cs)"
  let ?ds = "preorder (Suc ?n) cs i"
  let ?dss = "map (\<lambda>c. preorder ?n cs (cat_id c)) (findByParent i cs)"
  have w: "\<And>p. within ?n cs p" by (rule acyclic_within [OF assms])
  then have w': "within (Suc ?n) cs i" by (simp add: list_all_iff)
  have 1: "getAllDescendantIds (Suc ?n) i cs = Some ?ds"
    using w' by (simp only: getAllDescendantIds_eq if_True)
  have 2: "\<forall>n. getAllDescendantIds n i cs = Some ?ds \<or> getAllDescendantIds n i cs = None"
  proof
    fix n
    show "getAllDescendantIds n i cs = Some ?ds \<or> getAllDescendantIds n i cs = None"
    proof (cases "within n cs i")
      case True
      then have "preorder n cs i = ?ds"
        by (metis preorder_mono w' nat_le_linear)
      with True show ?thesis by (simp add: getAllDescendantIds_eq)
    next
      case False
      then show ?thesis by (simp add: getAllDescendantIds_eq)
    qed
  qed
  have 3: "set ?ds = descendants cs i" by (rule set_preorder [OF w'])
  have 4: "map (\<lambda>c. getAllDescendantIds ?n (cat_id c) cs) (findByParent i cs) = map Some ?dss"
    using w by (simp only: getAllDescendantIds_eq if_True map_map comp_def)
  have 5: "?ds = concat (map2 (\<lambda>c d. cat_id c # d) (findByParent i cs) ?dss)"
    by (simp add: zip_map2 zip_same_conv_map comp_def)
  from 1 2 3 4 5 show ?thesis by blast
qed

text \<open>
  C10. On a flat set with distinct ids and an acyclic parent graph the listing of an id
  returns a list that does not contain the id itself and has no duplicates.
\<close>

theorem listing_distinct:
  assumes "distinct (ids cs)" and "acyclic (child_rel cs)"
  shows "\<exists>ds. getAllDescendantIds (Suc (length cs)) i cs = Some ds
           \<and> (\<forall>n. getAllDescendantIds n i cs = Some ds \<or> getAllDescendantIds n i cs = None)
           \<and> i \<notin> set ds \<and> distinct ds"
proof -
  let ?n = "Suc (length cs)"
  let ?ds = "preorder ?n cs i"
  have w: "within ?n cs i" by (rule acyclic_within [OF assms(2)])
  have 1: "getAllDescendantIds ?n i cs = Some ?ds"
    using w by (simp only: getAllDescendantIds_eq if_True)
  have 2: "\<forall>n. getAllDescendantIds n i cs = Some ?ds \<or> getAllDescendantIds n i cs = None"
  proof
    fix n
    show "getAllDescendantIds n i cs = Some ?ds \<or> getAllDescendantIds n i cs = None"
    proof (cases "within n cs i")
      case True
      then have "preorder n cs i = ?ds"
        by (metis preorder_mono w nat_le_linear)
      with True show ?thesis by (simp add: getAllDescendantIds_eq)
    next
      case False
      then show ?thesis by (simp add: getAllDescendantIds_eq)
    qed
  qed
  have 3: "i \<notin> set ?ds"
    using set_preorder [OF w] not_self_descendant [OF assms(2)] by simp
  have 4: "distinct ?ds" by (rule distinct_preorder [OF assms])
  from 1 2 3 4 show ?thesis by blast
qed

lemma shop_distinct: "distinct (ids shop)"
  by (simp add: shop_def ids_def)

lemma shop_acyclic: "acyclic (child_rel shop)"
  by code_simp

theorem recursions_total_iff_acyclic_witness:
  "acyclic (child_rel shop)
   \<and> getAllDescendantIds 3 ''e1'' shop = Some [''c1'', ''l1'', ''d1'']
   \<and> (\<forall>n. (getAllDescendantIds n ''e1'' shop \<noteq> None) = (2 < n))
   \<and> (\<forall>n. (updateDescendantStatus n ''e1'' ''inactive'' shop \<noteq> None) = (2 < n))"
proof -
  have g3: "getAllDescendantIds 3 ''e1'' shop = Some [''c1'', ''l1'', ''d1'']" by code_simp
  have g2: "getAllDescendantIds 2 ''e1'' shop = None" by code_simp
  from recursions_total_iff_acyclic [of shop "''inactive''"] shop_acyclic
  obtain d where d: "\<forall>n. getAllDescendantIds n ''e1'' shop \<noteq> None \<longleftrightarrow> d < n"
    and u: "\<forall>n. updateDescendantStatus n ''e1'' ''inactive'' shop \<noteq> None \<longleftrightarrow> d < n"
    by blast
  from d g3 have "d < 3" by (metis option.distinct(1))
  moreover from d g2 have "\<not> d < 2" by blast
  ultimately have "d = 2" by simp
  with d u g3 shop_acyclic show ?thesis by simp
qed

theorem cascade_reaches_descendants_witness:
  "distinct (ids shop) \<and> acyclic (child_rel shop)
   \<and> updateDescendantStatus 6 ''c1'' ''inactive'' shop = Some shop_computers_off
   \<and> findById ''c1'' shop_computers_off = findById ''c1'' shop"
proof -
  have c: "updateDescendantStatus 6 ''c1'' ''inactive'' shop = Some shop_computers_off"
    by code_simp
  from cascade_reaches_descendants [OF shop_distinct shop_acyclic, of "''c1''" "''inactive''"]
  obtain s' where "\<forall>n. updateDescendantStatus n ''c1'' ''inactive'' shop = Some s'
                    \<or> updateDescendantStatus n ''c1'' ''inactive'' shop = None"
    and "findById ''c1'' s' = findById ''c1'' shop"
    by blast
  with c have "findById ''c1'' shop_computers_off = findById ''c1'' shop"
    by (metis option.distinct(1) option.inject)
  with c shop_distinct shop_acyclic show ?thesis by simp
qed

theorem cascade_frame_witness:
  "distinct (ids shop) \<and> acyclic (child_rel shop)
   \<and> updateDescendantStatus 6 ''c1'' ''inactive'' shop = Some shop_computers_off
   \<and> ids shop_computers_off = ids shop"
proof -
  have c: "updateDescendantStatus 6 ''c1'' ''inactive'' shop = Some shop_computers_off"
    by code_simp
  from cascade_frame [OF shop_distinct shop_acyclic, of "''c1''" "''inactive''"]
  obtain s' where "\<forall>n. updateDescendantStatus n ''c1'' ''inactive'' shop = Some s'
                    \<or> updateDescendantStatus n ''c1'' ''inactive'' shop = None"
    and "ids s' = ids shop"
    by blast
  with c have "ids shop_computers_off = ids shop"
    by (metis option.distinct(1) option.inject)
  with c shop_distinct shop_acyclic show ?thesis by simp
qed

theorem listing_is_preorder_witness:
  "acyclic (child_rel shop)
   \<and> getAllDescendantIds 3 ''e1'' shop = Some [''c1'', ''l1'', ''d1'']
   \<and> descendants shop ''e1'' = {''c1'', ''l1'', ''d1''}"
proof -
  have g3: "getAllDescendantIds 3 ''e1'' shop = Some [''c1'', ''l1'', ''d1'']" by code_simp
  from listing_is_preorder [OF shop_acyclic, of "''e1''"]
  obtain ds where "\<forall>n. getAllDescendantIds n ''e1'' shop = Some ds
                    \<or> getAllDescendantIds n ''e1'' shop = None"
    and "set ds = descendants shop ''e1''"
    by blast
  with g3 have "descendants shop ''e1'' = set [''c1'', ''l1'', ''d1'']"
    by (metis option.distinct(1) option.inject)
  with g3 shop_acyclic show ?thesis by simp
qed

theorem listing_distinct_witness:
  "distinct (ids shop) \<and> acyclic (child_rel shop)
   \<and> getAllDescendantIds 6 ''e1'' shop = Some [''c1'', ''l1'', ''d1'']"
proof -
  have g: "getAllDescendantIds 6 ''e1'' shop = Some [''c1'', ''l1'', ''d1'']" by code_simp
  from listing_distinct [OF shop_distinct shop_acyclic, of "''e1''"] g
  have "distinct [''c1'', ''l1'', ''d1''] \<and> ''e1'' \<notin> set [''c1'', ''l1'', ''d1'']"
    by (metis option.distinct(1) option.inject)
  with g shop_distinct shop_acyclic show ?thesis by simp
qed

text \<open>
  C1, for inputs without cycles. For an input list with distinct ids and an acyclic
  parent graph, the
  forest the builder of utils returns has a finite reading, the same whatever the fuel
  that suffices, and its nodes are the input records, each exactly once: the nodes'
  (id, name, status) triples are the records' as multisets, so the node count is the
  length of the input. Its roots are the records with no parent or with a parent that
  is no id of the input. The builder of the controller returns the same forest when
  every parent that is set is an id of the input.
\<close>

theorem buildCategoryTree_partition:
  assumes "distinct (ids cs)" and "acyclic (child_rel cs)"
  shows "\<exists>ts. forest (Suc (Suc (length cs))) (buildCategoryTree cs) = Some ts
           \<and> (\<forall>n. forest n (buildCategoryTree cs) = Some ts
                    \<or> forest n (buildCategoryTree cs) = None)
           \<and> mset (forest_nodes ts) = mset (map shown cs)
           \<and> length (forest_nodes ts) = length cs
           \<and> map tree_root ts = roots_of cs
           \<and> ((\<forall>c\<in>set cs. \<forall>p. cat_parent c = Some p \<longrightarrow> p \<in> set (ids cs))
                \<longrightarrow> buildCategoryTree_ctl cs = buildCategoryTree cs)"
proof -
  let ?n = "Suc (length cs)"
  let ?ts = "map (subtree ?n cs) (filter (is_root cs) cs)"
  let ?L = "concat (map (\<lambda>k. k # preorder ?n cs k) (roots_of cs))"
  have w: "\<And>k. within ?n cs k" by (rule acyclic_within [OF assms(2)])
  have w': "\<And>k. within (Suc ?n) cs k" by (rule within_mono [OF w]) simp
  have b: "buildCategoryTree cs = (heap_of cs, roots_of cs)"
    by (rule buildCategoryTree_eq [OF assms(1)])
  have 1: "forest (Suc ?n) (buildCategoryTree cs) = Some ?ts"
    unfolding b by (rule forest_heap_of [OF assms(1) w'])
  have 2: "\<forall>n. forest n (buildCategoryTree cs) = Some ?ts
                \<or> forest n (buildCategoryTree cs) = None"
    using forest_unique [OF 1] by blast
  have dL: "distinct ?L" by (rule forest_ids_distinct [OF assms])
  have sL: "set ?L = set (ids cs)" by (rule forest_ids_set [OF assms w])
  have "mset ?L = mset (ids cs)"
    using set_eq_iff_mset_eq_distinct [OF dL assms(1)] sL by (rule iffD1)
  then have "mset (map (shown_id cs) ?L) = mset (map (shown_id cs) (ids cs))"
    by (simp only: mset_map)
  then have 3: "mset (forest_nodes ?ts) = mset (map shown cs)"
    by (simp only: forest_nodes_heap_of [OF assms(1)] shown_ids [OF assms(1)])
  then have "size (mset (forest_nodes ?ts)) = size (mset (map shown cs))" by simp
  then have 4: "length (forest_nodes ?ts) = length cs" by simp
  have 5: "map tree_root ?ts = roots_of cs"
    by (simp add: roots_of_def tree_root_def comp_def)
  have 6: "(\<forall>c\<in>set cs. \<forall>p. cat_parent c = Some p \<longrightarrow> p \<in> set (ids cs))
             \<longrightarrow> buildCategoryTree_ctl cs = buildCategoryTree cs"
    by (simp add: b buildCategoryTree_ctl_eq [OF assms(1)] no_dangling_roots)
  from 1 2 3 4 5 6 show ?thesis by blast
qed


theorem buildCategoryTree_partition_witness:
  "distinct (ids shop) \<and> acyclic (child_rel shop)
   \<and> forest 7 (buildCategoryTree shop)
       = Some [Tree ''e1'' ''Electronics'' ''active''
                 [Tree ''c1'' ''Computers'' ''active''
                    [Tree ''l1'' ''Laptops'' ''active'' [],
                     Tree ''d1'' ''Desktops'' ''active'' []]],
               Tree ''b1'' ''Books'' ''active'' []]
   \<and> length (forest_nodes
         [Tree ''e1'' ''Electronics'' ''active''
                 [Tree ''c1'' ''Computers'' ''active''
                    [Tree ''l1'' ''Laptops'' ''active'' [],
                     Tree ''d1'' ''Desktops'' ''active'' []]],
               Tree ''b1'' ''Books'' ''active'' []]) = length shop"
proof -
  let ?ts = "[Tree ''e1'' ''Electronics'' ''active''
                 [Tree ''c1'' ''Computers'' ''active''
                    [Tree ''l1'' ''Laptops'' ''active'' [],
                     Tree ''d1'' ''Desktops'' ''active'' []]],
               Tree ''b1'' ''Books'' ''active'' []]"
  have f: "forest 7 (buildCategoryTree shop) = Some ?ts" by code_simp
  from buildCategoryTree_partition [OF shop_distinct shop_acyclic]
  obtain ts where "\<forall>n. forest n (buildCategoryTree shop) = Some ts
                    \<or> forest n (buildCategoryTree shop) = None"
    and "length (forest_nodes ts) = length shop"
    by blast
  with f have "length (forest_nodes ?ts) = length shop"
    by (metis option.distinct(1) option.inject)
  with f shop_distinct shop_acyclic show ?thesis by simp
qed

text \<open>
  C1 as stated fails on a cyclic input: of two records that name each other as parent
  none reaches the root list, so the forest is empty while the input has two records.
\<close>

theorem buildCategoryTree_cycle_counterexample:
  "forest 4 (buildCategoryTree loop2) = Some []
   \<and> length (forest_nodes ([] :: tree list)) < length loop2"
  by code_simp

text \<open>
  C2. A record whose parent is set and is no id of the input belongs in the root list.
  The builder of utils puts it there (\<open>buildCategoryTree_dangling_root\<close>). The builder
  of the controller, the one the endpoint calls, does not: on a root and a record with a
  dangling parent its root list and its forest hold the root only, where the builder of
  utils returns both.
\<close>

theorem buildCategoryTree_ctl_drops_orphan:
  "snd (buildCategoryTree_ctl orphan) = [''e1'']
   \<and> forest 3 (buildCategoryTree_ctl orphan) = Some [Tree ''e1'' ''Electronics'' ''active'' []]
   \<and> snd (buildCategoryTree orphan) = [''e1'', ''o1'']"
  by code_simp

end
